theory Spec2Isabelle
  imports Main "HOL-Library.Word"
begin

unbundle bit_operations_syntax

section \<open>Machine types and pointers\<close>

text \<open>
  The C types of the codec: \<open>unsigned char\<close>, \<open>unsigned int\<close> and
  \<open>qoa_uint64_t\<close> are words of 8, 32 and 64 bits, whose arithmetic wraps around as
  C's unsigned arithmetic does. A C \<open>int\<close> is a HOL \<open>int\<close>; where a product or
  a sum of the source can leave the 32-bit range (the LMS prediction, the weight
  update, the reciprocal multiplication of \<open>qoa_div\<close>) the result is wrapped by
  \<open>i32\<close> to 32-bit two's complement, which is what the compiled code computes.
  All other \<open>int\<close> expressions of the source stay far inside the 32-bit range.
  A right shift of a signed value is the arithmetic shift, that is \<open>div 2 ^ n\<close>.

  A pointer is the memory seen from it: a function from offsets to cells.
  \<open>ptr_add m p\<close> is the C expression \<open>m + p\<close>; \<open>ptr_merge m p v\<close> is the memory
  behind \<open>m\<close> after a callee that was handed \<open>m + p\<close> left the memory \<open>v\<close> behind
  that pointer.
\<close>

type_synonym u8 = "8 word"
type_synonym u32 = "32 word"
type_synonym u64 = "64 word"

definition i32 :: "int \<Rightarrow> int" where
  "i32 x = signed_take_bit 31 x"

definition ptr_add :: "(nat \<Rightarrow> 'a) \<Rightarrow> nat \<Rightarrow> (nat \<Rightarrow> 'a)" where
  "ptr_add m p = (\<lambda>i. m (p + i))"

definition ptr_merge :: "(nat \<Rightarrow> 'a) \<Rightarrow> nat \<Rightarrow> (nat \<Rightarrow> 'a) \<Rightarrow> (nat \<Rightarrow> 'a)" where
  "ptr_merge m p v = (\<lambda>i. if i < p then m i else v (i - p))"

text \<open>
  The index sequence of \<open>for (i = a; i < n; i += step)\<close>. Every such loop of the
  source has a positive step.
\<close>

function for_range :: "int \<Rightarrow> int \<Rightarrow> int \<Rightarrow> int list" where
  "for_range i n step = (if i < n \<and> 0 < step then i # for_range (i + step) n step else [])"
  by pat_completeness auto
termination
  by (relation "measure (\<lambda>(i, n, step). nat (n - i))") auto

declare for_range.simps [simp del]

text \<open>C's integer division truncates towards zero.\<close>

definition c_div :: "int \<Rightarrow> int \<Rightarrow> int" where
  "c_div a b = sgn a * sgn b * (\<bar>a\<bar> div \<bar>b\<bar>)"

section \<open>Constants and tables (qoa.h)\<close>

definition QOA_MIN_FILESIZE :: int where "QOA_MIN_FILESIZE = 16"
definition QOA_SLICE_LEN :: int where "QOA_SLICE_LEN = 20"
definition QOA_SLICES_PER_FRAME :: int where "QOA_SLICES_PER_FRAME = 256"
definition QOA_FRAME_LEN :: int where "QOA_FRAME_LEN = QOA_SLICES_PER_FRAME * QOA_SLICE_LEN"
definition QOA_LMS_LEN :: nat where "QOA_LMS_LEN = 4"
definition QOA_MAGIC :: u64 where "QOA_MAGIC = 0x716f6166"

definition QOA_FRAME_SIZE :: "u32 \<Rightarrow> u32 \<Rightarrow> u32" where
  "QOA_FRAME_SIZE channels slices = 8 + 4 * 4 * channels + 8 * slices * channels"

definition qoa_quant_tab :: "nat list" where
  "qoa_quant_tab = [7, 7, 7, 5, 5, 3, 3, 1, 0, 0, 2, 2, 4, 4, 6, 6, 6]"

definition qoa_scalefactor_tab :: "int list" where
  "qoa_scalefactor_tab =
     [1, 7, 21, 45, 84, 138, 211, 304, 421, 562, 731, 928, 1157, 1419, 1715, 2048]"

definition qoa_reciprocal_tab :: "int list" where
  "qoa_reciprocal_tab =
     [65536, 9363, 3121, 1457, 781, 475, 311, 216, 156, 117, 90, 71, 57, 47, 39, 32]"

definition qoa_dequant_tab :: "int list list" where
  "qoa_dequant_tab =
    [[   1,    -1,    3,    -3,    5,    -5,     7,     -7],
     [   5,    -5,   18,   -18,   32,   -32,    49,    -49],
     [  16,   -16,   53,   -53,   95,   -95,   147,   -147],
     [  34,   -34,  113,  -113,  203,  -203,   315,   -315],
     [  63,   -63,  210,  -210,  378,  -378,   588,   -588],
     [ 104,  -104,  345,  -345,  621,  -621,   966,   -966],
     [ 158,  -158,  528,  -528,  950,  -950,  1477,  -1477],
     [ 228,  -228,  760,  -760, 1368, -1368,  2128,  -2128],
     [ 316,  -316, 1053, -1053, 1895, -1895,  2947,  -2947],
     [ 422,  -422, 1405, -1405, 2529, -2529,  3934,  -3934],
     [ 548,  -548, 1828, -1828, 3290, -3290,  5117,  -5117],
     [ 696,  -696, 2320, -2320, 4176, -4176,  6496,  -6496],
     [ 868,  -868, 2893, -2893, 5207, -5207,  8099,  -8099],
     [1064, -1064, 3548, -3548, 6386, -6386,  9933,  -9933],
     [1286, -1286, 4288, -4288, 7718, -7718, 12005, -12005],
     [1536, -1536, 5120, -5120, 9216, -9216, 14336, -14336]]"

section \<open>The LMS predictor and the fixed-point primitives (qoa.h)\<close>

text \<open>
  \<open>qoa_lms_t\<close> holds two arrays \<open>int[QOA_LMS_LEN]\<close>, \<open>qoa_desc\<close> the three
  \<open>unsigned int\<close> fields and the array \<open>lms[QOA_MAX_CHANNELS]\<close>. Arrays are
  functions from the index.
\<close>

record qoa_lms_t =
  history :: "nat \<Rightarrow> int"
  weights :: "nat \<Rightarrow> int"

record qoa_desc =
  channels :: u32
  samplerate :: u32
  samples :: u32
  lms :: "nat \<Rightarrow> qoa_lms_t"

definition qoa_lms_predict :: "qoa_lms_t \<Rightarrow> int" where
  "qoa_lms_predict l =
     fold (\<lambda>i prediction. i32 (prediction + i32 (weights l i * history l i)))
       [0, 1, 2, 3] 0 div 2 ^ 13"

definition qoa_lms_update :: "qoa_lms_t \<Rightarrow> int \<Rightarrow> int \<Rightarrow> qoa_lms_t" where
  "qoa_lms_update l sample residual =
     (let delta = residual div 2 ^ 4;
          l = fold (\<lambda>i l. l\<lparr>weights := (weights l)
                 (i := i32 (weights l i + (if history l i < 0 then - delta else delta)))\<rparr>)
                [0, 1, 2, 3] l;
          l = fold (\<lambda>i l. l\<lparr>history := (history l)(i := history l (i + 1))\<rparr>) [0, 1, 2] l
      in l\<lparr>history := (history l)(QOA_LMS_LEN - 1 := sample)\<rparr>)"

definition b2i :: "bool \<Rightarrow> int" where
  "b2i b = (if b then 1 else 0)"

definition qoa_div :: "int \<Rightarrow> nat \<Rightarrow> int" where
  "qoa_div v scalefactor =
     (let reciprocal = qoa_reciprocal_tab ! scalefactor;
          n = i32 (i32 (v * reciprocal) + 2 ^ 15) div 2 ^ 16
      in n + (b2i (v > 0) - b2i (v < 0)) - (b2i (n > 0) - b2i (n < 0)))"

definition qoa_clamp :: "int \<Rightarrow> int \<Rightarrow> int \<Rightarrow> int" where
  "qoa_clamp v min_v max_v = (if v < min_v then min_v else if v > max_v then max_v else v)"

definition qoa_read_u64 :: "(nat \<Rightarrow> u8) \<Rightarrow> u32 \<Rightarrow> u64 \<times> u32" where
  "qoa_read_u64 bytes p =
     (let b = ptr_add bytes (unat p)
      in (push_bit 56 (ucast (b 0)) OR push_bit 48 (ucast (b 1)) OR
          push_bit 40 (ucast (b 2)) OR push_bit 32 (ucast (b 3)) OR
          push_bit 24 (ucast (b 4)) OR push_bit 16 (ucast (b 5)) OR
          push_bit 8 (ucast (b 6)) OR push_bit 0 (ucast (b 7)),
          p + 8))"

definition qoa_write_u64 :: "u64 \<Rightarrow> (nat \<Rightarrow> u8) \<Rightarrow> u32 \<Rightarrow> (nat \<Rightarrow> u8) \<times> u32" where
  "qoa_write_u64 v bytes p =
     (let q = unat p
      in (bytes
           (q := ucast (drop_bit 56 v AND 0xff),
            q + 1 := ucast (drop_bit 48 v AND 0xff),
            q + 2 := ucast (drop_bit 40 v AND 0xff),
            q + 3 := ucast (drop_bit 32 v AND 0xff),
            q + 4 := ucast (drop_bit 24 v AND 0xff),
            q + 5 := ucast (drop_bit 16 v AND 0xff),
            q + 6 := ucast (drop_bit 8 v AND 0xff),
            q + 7 := ucast (drop_bit 0 v AND 0xff)),
          p + 8))"

section \<open>The decoder (read.c)\<close>

definition qoa_max_frame_size :: "qoa_desc \<Rightarrow> u32" where
  "qoa_max_frame_size qoa = QOA_FRAME_SIZE (channels qoa) (word_of_int QOA_SLICES_PER_FRAME)"

text \<open>\<open>qoa_decode_header\<close> returns its result and the descriptor it leaves behind.\<close>

definition qoa_decode_header :: "(nat \<Rightarrow> u8) \<Rightarrow> int \<Rightarrow> qoa_desc \<Rightarrow> u32 \<times> qoa_desc" where
  "qoa_decode_header bytes sz qoa =
     (if sz < QOA_MIN_FILESIZE then (0, qoa)
      else
        let (file_header, p) = qoa_read_u64 bytes 0
        in if drop_bit 32 file_header \<noteq> QOA_MAGIC then (0, qoa)
           else
             let qoa = qoa\<lparr>samples := ucast (file_header AND 0xffffffff)\<rparr>
             in if samples qoa = 0 then (0, qoa)
                else
                  let (frame_header, p) = qoa_read_u64 bytes p;
                      qoa = qoa\<lparr>channels := ucast (drop_bit 56 frame_header AND 0x0000ff),
                                samplerate := ucast (drop_bit 32 frame_header AND 0xffffff)\<rparr>
                  in if channels qoa = 0 \<or> samples qoa = 0 \<or> samplerate qoa = 0
                     then (0, qoa)
                     else (8, qoa))"

text \<open>
  Lines 74 to 83 of read.c: the LMS state of every channel, two words each, unpacked
  from the top 16 bits down as \<open>signed short\<close>.
\<close>

definition qoa_decode_lms_words :: "u64 \<Rightarrow> u64 \<Rightarrow> qoa_lms_t \<Rightarrow> qoa_lms_t" where
  "qoa_decode_lms_words history_w weights_w l =
     snd (snd (fold (\<lambda>i (h, w, l).
        (push_bit 16 h, push_bit 16 w,
         l\<lparr>history := (history l)(i := sint (ucast (drop_bit 48 h) :: 16 word)),
           weights := (weights l)(i := sint (ucast (drop_bit 48 w) :: 16 word))\<rparr>))
       [0, 1, 2, 3] (history_w, weights_w, l)))"

definition qoa_decode_lms_state ::
    "(nat \<Rightarrow> u8) \<Rightarrow> int \<Rightarrow> u32 \<times> qoa_desc \<Rightarrow> u32 \<times> qoa_desc" where
  "qoa_decode_lms_state bytes chans =
     fold (\<lambda>c (p, qoa).
        let (history_w, p) = qoa_read_u64 bytes p;
            (weights_w, p) = qoa_read_u64 bytes p
        in (p, qoa\<lparr>lms := (lms qoa)(c := qoa_decode_lms_words history_w weights_w (lms qoa c))\<rparr>))
       [0..<nat chans]"

text \<open>
  Lines 95 to 105: the residuals of one slice. The sample buffer holds the value that
  the source assigns to \<open>sample_data[si]\<close>.
\<close>

fun qoa_decode_residuals ::
    "nat \<Rightarrow> int list \<Rightarrow> u64 \<times> qoa_lms_t \<times> (nat \<Rightarrow> int) \<Rightarrow> u64 \<times> qoa_lms_t \<times> (nat \<Rightarrow> int)" where
  "qoa_decode_residuals scalefactor [] st = st"
| "qoa_decode_residuals scalefactor (si # sis) (slice_w, l, sample_data) =
     (let predicted = qoa_lms_predict l;
          quantized = unat (drop_bit 57 slice_w AND 0x7);
          dequantized = qoa_dequant_tab ! scalefactor ! quantized;
          reconstructed = qoa_clamp (predicted + dequantized) (- 32768) 32767
      in qoa_decode_residuals scalefactor sis
           (push_bit 3 slice_w, qoa_lms_update l reconstructed dequantized,
            sample_data(nat si := reconstructed)))"

text \<open>Lines 88 to 106: one slice of channel \<open>c\<close>.\<close>

definition qoa_decode_slice ::
    "(nat \<Rightarrow> u8) \<Rightarrow> int \<Rightarrow> int \<Rightarrow> int \<Rightarrow> nat \<Rightarrow>
     u32 \<times> qoa_desc \<times> (nat \<Rightarrow> int) \<Rightarrow> u32 \<times> qoa_desc \<times> (nat \<Rightarrow> int)" where
  "qoa_decode_slice bytes chans smpls sample_index c = (\<lambda>(p, qoa, sample_data).
     let (slice_w, p) = qoa_read_u64 bytes p;
         scalefactor = unat (drop_bit 60 slice_w AND 0xf);
         slice_start = sample_index * chans + int c;
         slice_end = qoa_clamp (sample_index + QOA_SLICE_LEN) 0 smpls * chans + int c;
         (slice_w, l, sample_data) =
            qoa_decode_residuals scalefactor (for_range slice_start slice_end chans)
              (slice_w, lms qoa c, sample_data)
     in (p, qoa\<lparr>lms := (lms qoa)(c := l)\<rparr>, sample_data))"

definition qoa_decode_slices ::
    "(nat \<Rightarrow> u8) \<Rightarrow> int \<Rightarrow> int \<Rightarrow>
     u32 \<times> qoa_desc \<times> (nat \<Rightarrow> int) \<Rightarrow> u32 \<times> qoa_desc \<times> (nat \<Rightarrow> int)" where
  "qoa_decode_slices bytes chans smpls =
     fold (\<lambda>sample_index. fold (qoa_decode_slice bytes chans smpls sample_index) [0..<nat chans])
       (for_range 0 smpls QOA_SLICE_LEN)"

text \<open>The four fields of a frame header, as the \<open>int\<close> variables of the source.\<close>

definition frame_channels :: "u64 \<Rightarrow> int" where
  "frame_channels frame_header = uint (drop_bit 56 frame_header AND 0x0000ff)"

definition frame_samplerate :: "u64 \<Rightarrow> int" where
  "frame_samplerate frame_header = uint (drop_bit 32 frame_header AND 0xffffff)"

definition frame_samples :: "u64 \<Rightarrow> int" where
  "frame_samples frame_header = uint (drop_bit 16 frame_header AND 0x00ffff)"

definition frame_frame_size :: "u64 \<Rightarrow> int" where
  "frame_frame_size frame_header = uint (frame_header AND 0x00ffff)"

text \<open>
  \<open>qoa_decode_frame\<close> returns the number of bytes consumed, the descriptor, the sample
  buffer and \<open>*frame_len\<close>.
\<close>

definition qoa_decode_frame ::
    "(nat \<Rightarrow> u8) \<Rightarrow> u32 \<Rightarrow> qoa_desc \<Rightarrow> (nat \<Rightarrow> int) \<Rightarrow> u32 \<times> qoa_desc \<times> (nat \<Rightarrow> int) \<times> u32" where
  "qoa_decode_frame bytes sz qoa sample_data =
     (if sz < 8 + 4 * 4 * channels qoa then (0, qoa, sample_data, 0)
      else
        let (frame_header, p) = qoa_read_u64 bytes 0;
            chans = frame_channels frame_header;
            srate = frame_samplerate frame_header;
            smpls = frame_samples frame_header;
            frame_size = frame_frame_size frame_header;
            data_size = frame_size - 8 - 4 * 4 * chans;
            num_slices = c_div data_size 8;
            max_total_samples = num_slices * QOA_SLICE_LEN
        in if word_of_int chans \<noteq> channels qoa \<or>
              word_of_int srate \<noteq> samplerate qoa \<or>
              word_of_int frame_size > sz \<or>
              smpls * chans > max_total_samples
           then (0, qoa, sample_data, 0)
           else
             let (p, qoa) = qoa_decode_lms_state bytes chans (p, qoa);
                 (p, qoa, sample_data) = qoa_decode_slices bytes chans smpls (p, qoa, sample_data)
             in (p, qoa, sample_data, word_of_int smpls))"

text \<open>
  \<open>QOA_MALLOC\<close> is \<open>malloc\<close>: its argument is a \<open>size_t\<close>, of 64 bits, and its result is
  the null pointer, \<open>None\<close>, when the allocation fails, and otherwise a buffer that the
  environment hands out, \<open>heap\<close>. No allocation gives \<open>2 ^ 63\<close> bytes or more.
\<close>

definition QOA_MALLOC :: "u64 \<Rightarrow> 'a option \<Rightarrow> 'a option" where
  "QOA_MALLOC sz heap = (if 2 ^ 63 \<le> sz then None else heap)"

text \<open>
  The \<open>do ... while\<close> loop of \<open>qoa_decode\<close>; \<open>sample_data\<close> is \<open>None\<close> when it is the null
  pointer. The loop returns an option: \<open>None\<close> is a call that does not return, because
  the loop runs forever or because a frame stores a sample through the null pointer.
  \<open>qoa_decode_frame\<close> stores a sample exactly when the frame has a channel and
  \<open>frame_len\<close> is not 0.
\<close>

partial_function (option) qoa_decode_frames ::
    "(nat \<Rightarrow> u8) \<Rightarrow> int \<Rightarrow> qoa_desc \<Rightarrow> (nat \<Rightarrow> int) option \<Rightarrow> u32 \<Rightarrow> u32 \<Rightarrow>
     (qoa_desc \<times> (nat \<Rightarrow> int) option \<times> u32) option" where
  "qoa_decode_frames bytes sz qoa sample_data p sample_index =
     (case sample_data of
        Some buffer \<Rightarrow>
          (case qoa_decode_frame (ptr_add bytes (unat p)) (word_of_int sz - p) qoa
                  (ptr_add buffer (unat (sample_index * channels qoa))) of
             (frame_size, qoa', sample_view, frame_len) \<Rightarrow>
               if frame_size \<noteq> 0 \<and> sample_index + frame_len < samples qoa'
               then qoa_decode_frames bytes sz qoa'
                      (Some (ptr_merge buffer (unat (sample_index * channels qoa)) sample_view))
                      (p + frame_size) (sample_index + frame_len)
               else Some (qoa',
                      Some (ptr_merge buffer (unat (sample_index * channels qoa)) sample_view),
                      sample_index + frame_len))
      | None \<Rightarrow>
          (case qoa_decode_frame (ptr_add bytes (unat p)) (word_of_int sz - p) qoa (\<lambda>i. 0) of
             (frame_size, qoa', sample_view, frame_len) \<Rightarrow>
               if frame_len \<noteq> 0 \<and> channels qoa' \<noteq> 0 then None
               else if frame_size \<noteq> 0 \<and> sample_index + frame_len < samples qoa'
               then qoa_decode_frames bytes sz qoa' None (p + frame_size) (sample_index + frame_len)
               else Some (qoa', None, sample_index + frame_len)))"

text \<open>
  The state of that loop, on a buffer that was allocated, after \<open>k\<close> rounds each of which
  goes on to the next: the descriptor, the buffer, \<open>p\<close> and \<open>sample_index\<close>.
\<close>

fun qoa_decode_rounds ::
    "nat \<Rightarrow> (nat \<Rightarrow> u8) \<Rightarrow> int \<Rightarrow> qoa_desc \<times> (nat \<Rightarrow> int) \<times> u32 \<times> u32 \<Rightarrow>
     (qoa_desc \<times> (nat \<Rightarrow> int) \<times> u32 \<times> u32) option" where
  "qoa_decode_rounds 0 bytes sz st = Some st"
| "qoa_decode_rounds (Suc k) bytes sz (qoa, buffer, p, sample_index) =
     (case qoa_decode_frame (ptr_add bytes (unat p)) (word_of_int sz - p) qoa
             (ptr_add buffer (unat (sample_index * channels qoa))) of
        (frame_size, qoa', sample_view, frame_len) \<Rightarrow>
          if frame_size \<noteq> 0 \<and> sample_index + frame_len < samples qoa'
          then qoa_decode_rounds k bytes sz
                 (qoa', ptr_merge buffer (unat (sample_index * channels qoa)) sample_view,
                  p + frame_size, sample_index + frame_len)
          else None)"

text \<open>
  \<open>qoa_decode\<close>: the result is \<open>None\<close> for the null pointer, and otherwise the sample
  buffer with the number of \<open>short\<close>s that were asked for; with it comes the descriptor.
  \<open>heap\<close> is the memory that the environment has for \<open>QOA_MALLOC\<close>, whose argument
  \<open>total_samples * sizeof(short)\<close> is computed in \<open>size_t\<close>.
\<close>

definition qoa_decode ::
    "(nat \<Rightarrow> u8) \<Rightarrow> int \<Rightarrow> qoa_desc \<Rightarrow> (nat \<Rightarrow> int) option \<Rightarrow>
     (((nat \<Rightarrow> int) \<times> int) option \<times> qoa_desc) option" where
  "qoa_decode bytes sz qoa heap =
     (case qoa_decode_header bytes sz qoa of
        (p, qoa) \<Rightarrow>
          if p = 0 then Some (None, qoa)
          else
            let total_samples = sint (samples qoa * channels qoa);
                sample_data = QOA_MALLOC (word_of_int total_samples * 2) heap
            in case qoa_decode_frames bytes sz qoa sample_data p 0 of
                 None \<Rightarrow> None
               | Some (qoa, sample_data, sample_index) \<Rightarrow>
                   Some (map_option (\<lambda>buffer. (buffer, total_samples)) sample_data,
                         qoa\<lparr>samples := sample_index\<rparr>))"


section \<open>The encoder (write.c)\<close>


text \<open>Lines 29 to 38 of write.c: the LMS state of every channel, packed into two words each.\<close>

definition qoa_encode_lms_words :: "qoa_lms_t \<Rightarrow> u64 \<times> u64" where
  "qoa_encode_lms_words l =
     fold (\<lambda>i (history_w, weights_w).
        (push_bit 16 history_w OR word_of_int (history l i AND 0xffff),
         push_bit 16 weights_w OR word_of_int (weights l i AND 0xffff)))
       [0, 1, 2, 3] (0, 0)"

definition qoa_encode_lms_state :: "qoa_desc \<Rightarrow> (nat \<Rightarrow> u8) \<times> u32 \<Rightarrow> (nat \<Rightarrow> u8) \<times> u32" where
  "qoa_encode_lms_state qoa =
     fold (\<lambda>c (bytes, p).
        let (history_w, weights_w) = qoa_encode_lms_words (lms qoa c);
            (bytes, p) = qoa_write_u64 history_w bytes p
        in qoa_write_u64 weights_w bytes p)
       [0..<unat (channels qoa)]"

text \<open>
  Lines 65 to 84: one pass over the samples of a slice with one scalefactor. The pass
  stops at the \<open>break\<close>, with the error already added but the LMS state and the slice
  word of the step before.
\<close>

fun qoa_encode_residuals ::
    "nat \<Rightarrow> u64 \<Rightarrow> (nat \<Rightarrow> 16 word) \<Rightarrow> int list \<Rightarrow>
     qoa_lms_t \<times> u64 \<times> u64 \<Rightarrow> qoa_lms_t \<times> u64 \<times> u64" where
  "qoa_encode_residuals scalefactor best_error sample_data [] st = st"
| "qoa_encode_residuals scalefactor best_error sample_data (si # sis) (l, slice_w, current_error) =
     (let sample = sint (sample_data (nat si));
          predicted = qoa_lms_predict l;
          residual = sample - predicted;
          scaled = qoa_div residual scalefactor;
          clamped = qoa_clamp scaled (- 8) 8;
          quantized = qoa_quant_tab ! nat (clamped + 8);
          dequantized = qoa_dequant_tab ! scalefactor ! quantized;
          reconstructed = qoa_clamp (predicted + dequantized) (- 32768) 32767;
          err = sample - reconstructed;
          current_error = current_error + word_of_int (err * err)
      in if current_error > best_error then (l, slice_w, current_error)
         else qoa_encode_residuals scalefactor best_error sample_data sis
                (qoa_lms_update l reconstructed dequantized,
                 push_bit 3 slice_w OR word_of_nat quantized, current_error))"

text \<open>
  Lines 52 to 91: the search over the 16 scalefactors. The source leaves \<open>best_slice\<close>
  and \<open>best_lms\<close> uninitialised; here they start as 0 and as the LMS state of the
  channel.
\<close>

definition qoa_encode_search ::
    "(nat \<Rightarrow> 16 word) \<Rightarrow> qoa_lms_t \<Rightarrow> int list \<Rightarrow> nat list \<Rightarrow> u64 \<times> u64 \<times> qoa_lms_t" where
  "qoa_encode_search sample_data lms_c sis scalefactors =
     fold (\<lambda>scalefactor (best_error, best_slice, best_lms).
        let (l, slice_w, current_error) =
              qoa_encode_residuals scalefactor best_error sample_data sis
                (lms_c, word_of_nat scalefactor, 0)
        in if current_error < best_error then (current_error, slice_w, l)
           else (best_error, best_slice, best_lms))
       scalefactors (- 1, 0, lms_c)"

text \<open>Lines 44 to 104: one slice of channel \<open>c\<close>.\<close>

definition qoa_encode_slice ::
    "(nat \<Rightarrow> 16 word) \<Rightarrow> u32 \<Rightarrow> int \<Rightarrow> nat \<Rightarrow>
     qoa_desc \<times> (nat \<Rightarrow> u8) \<times> u32 \<Rightarrow> qoa_desc \<times> (nat \<Rightarrow> u8) \<times> u32" where
  "qoa_encode_slice sample_data frame_len sample_index c = (\<lambda>(qoa, bytes, p).
     let chans = channels qoa;
         slice_len = qoa_clamp QOA_SLICE_LEN 0 (sint (frame_len - word_of_int sample_index));
         slice_start = sint (word_of_int sample_index * chans + word_of_nat c);
         slice_end = sint (word_of_int (sample_index + slice_len) * chans + word_of_nat c);
         (best_error, best_slice, best_lms) =
            qoa_encode_search sample_data (lms qoa c)
              (for_range slice_start slice_end (uint chans)) [0..<16];
         qoa = qoa\<lparr>lms := (lms qoa)(c := best_lms)\<rparr>;
         best_slice = push_bit (nat ((QOA_SLICE_LEN - slice_len) * 3)) best_slice;
         (bytes, p) = qoa_write_u64 best_slice bytes p
     in (qoa, bytes, p))"

definition qoa_encode_slices ::
    "(nat \<Rightarrow> 16 word) \<Rightarrow> u32 \<Rightarrow> u32 \<Rightarrow>
     qoa_desc \<times> (nat \<Rightarrow> u8) \<times> u32 \<Rightarrow> qoa_desc \<times> (nat \<Rightarrow> u8) \<times> u32" where
  "qoa_encode_slices sample_data frame_len chans =
     fold (\<lambda>sample_index. fold (qoa_encode_slice sample_data frame_len sample_index) [0..<unat chans])
       (for_range 0 (uint frame_len) QOA_SLICE_LEN)"

definition qoa_encode_frame ::
    "(nat \<Rightarrow> 16 word) \<Rightarrow> qoa_desc \<Rightarrow> u32 \<Rightarrow> (nat \<Rightarrow> u8) \<Rightarrow> u32 \<times> qoa_desc \<times> (nat \<Rightarrow> u8)" where
  "qoa_encode_frame sample_data qoa frame_len bytes =
     (let chans = channels qoa;
          slices = (frame_len + word_of_int QOA_SLICE_LEN - 1) div word_of_int QOA_SLICE_LEN;
          frame_size = QOA_FRAME_SIZE chans slices;
          (bytes, p) = qoa_write_u64
             (push_bit 56 (ucast (channels qoa)) OR push_bit 32 (ucast (samplerate qoa)) OR
              push_bit 16 (ucast frame_len) OR ucast frame_size) bytes 0;
          (bytes, p) = qoa_encode_lms_state qoa (bytes, p);
          (qoa, bytes, p) = qoa_encode_slices sample_data frame_len chans (qoa, bytes, p)
      in (p, qoa, bytes))"

text \<open>Lines 129 to 142: the initial LMS state of every channel.\<close>

definition qoa_encode_init :: "qoa_desc \<Rightarrow> qoa_desc" where
  "qoa_encode_init qoa =
     fold (\<lambda>c qoa.
        let l = lms qoa c;
            l = l\<lparr>weights := (weights l)(0 := 0)\<rparr>;
            l = l\<lparr>weights := (weights l)(1 := 0)\<rparr>;
            l = l\<lparr>weights := (weights l)(2 := - (2 ^ 13))\<rparr>;
            l = l\<lparr>weights := (weights l)(3 := 2 ^ 14)\<rparr>;
            l = fold (\<lambda>i l. l\<lparr>history := (history l)(i := 0)\<rparr>) [0, 1, 2, 3] l
        in qoa\<lparr>lms := (lms qoa)(c := l)\<rparr>)
       [0..<unat (channels qoa)] qoa"

lemma fold_invariant:
  "P s \<Longrightarrow> (\<And>x s. x \<in> set xs \<Longrightarrow> P s \<Longrightarrow> P (f x s)) \<Longrightarrow> P (fold f xs s)"
  by (induction xs arbitrary: s) auto

lemma qoa_encode_slice_fields:
  "channels (fst (qoa_encode_slice sample_data frame_len sample_index c st)) = channels (fst st) \<and>
   samplerate (fst (qoa_encode_slice sample_data frame_len sample_index c st)) = samplerate (fst st) \<and>
   samples (fst (qoa_encode_slice sample_data frame_len sample_index c st)) = samples (fst st)"
  by (simp add: qoa_encode_slice_def Let_def split_def)

lemma qoa_encode_slices_fields:
  "channels (fst (qoa_encode_slices sample_data frame_len chans st)) = channels (fst st) \<and>
   samplerate (fst (qoa_encode_slices sample_data frame_len chans st)) = samplerate (fst st) \<and>
   samples (fst (qoa_encode_slices sample_data frame_len chans st)) = samples (fst st)"
  unfolding qoa_encode_slices_def
  by (rule fold_invariant, simp, rule fold_invariant, simp, simp only: qoa_encode_slice_fields)

lemma qoa_encode_frame_fields:
  "channels (fst (snd (qoa_encode_frame sample_data qoa frame_len bytes))) = channels qoa \<and>
   samplerate (fst (snd (qoa_encode_frame sample_data qoa frame_len bytes))) = samplerate qoa \<and>
   samples (fst (snd (qoa_encode_frame sample_data qoa frame_len bytes))) = samples qoa"
  by (simp add: qoa_encode_frame_def Let_def split_def qoa_encode_slices_fields)

lemma sint_le_uint: "sint (r :: 'a::len word) \<le> uint r"
  by (simp add: sint_uint signed_take_bit_int_less_eq_self_iff) (rule order_trans [of _ 0], simp_all)

lemma frame_len_progress:
  fixes a s :: u32
  assumes "a < s"
  shows "unat (s - (a + word_of_int (qoa_clamp QOA_FRAME_LEN 0 (sint (s - a))))) < unat (s - a)"
proof -
  define r where "r = s - a"
  have r0: "r \<noteq> 0" using assms by (simp add: r_def)
  have eq: "s - (a + w) = r - w" for w by (simp add: r_def)
  show ?thesis
  proof (cases "sint r < 5120")
    case True
    then have "qoa_clamp QOA_FRAME_LEN 0 (sint r) = sint r"
      by (simp add: qoa_clamp_def QOA_FRAME_LEN_def QOA_SLICES_PER_FRAME_def QOA_SLICE_LEN_def)
    then have "unat (s - (a + word_of_int (qoa_clamp QOA_FRAME_LEN 0 (sint r)))) = 0"
      by (simp add: eq)
    moreover have "0 < unat r" using r0 by (simp add: unat_gt_0)
    ultimately show ?thesis by (simp add: r_def)
  next
    case False
    then have c: "qoa_clamp QOA_FRAME_LEN 0 (sint r) = 5120"
      by (simp add: qoa_clamp_def QOA_FRAME_LEN_def QOA_SLICES_PER_FRAME_def QOA_SLICE_LEN_def)
    have "sint r \<le> uint r" by (rule sint_le_uint)
    with False have "5120 \<le> uint r" by simp
    then have le: "(5120 :: u32) \<le> r" by (simp add: word_le_def)
    then have "unat (r - 5120) = unat r - 5120" by (simp add: unat_sub)
    moreover have "5120 \<le> unat r" using le by (simp add: word_le_nat_alt)
    ultimately have "unat (s - (a + word_of_int (qoa_clamp QOA_FRAME_LEN 0 (sint r)))) < unat r"
      by (simp add: eq c)
    then show ?thesis by (simp add: r_def)
  qed
qed

text \<open>
  Lines 151 to 157: the loop over the frames. \<open>frame_samples\<close> and \<open>bytes + p\<close> are the
  pointers handed to \<open>qoa_encode_frame\<close>. The loop ends because every round brings
  \<open>sample_index\<close>, read as \<open>unsigned int\<close>, closer to \<open>samples\<close>.
\<close>

function qoa_encode_frames ::
    "(nat \<Rightarrow> 16 word) \<Rightarrow> int \<Rightarrow> qoa_desc \<times> (nat \<Rightarrow> u8) \<times> u32 \<Rightarrow> qoa_desc \<times> (nat \<Rightarrow> u8) \<times> u32" where
  "qoa_encode_frames sample_data sample_index (qoa, bytes, p) =
     (if word_of_int sample_index < samples qoa then
        let frame_len = qoa_clamp QOA_FRAME_LEN 0 (sint (samples qoa - word_of_int sample_index));
            frame_samples = ptr_add sample_data (unat (word_of_int sample_index * channels qoa))
        in case qoa_encode_frame frame_samples qoa (word_of_int frame_len) (ptr_add bytes (unat p)) of
             (frame_size, qoa', view) \<Rightarrow>
               qoa_encode_frames sample_data (sample_index + frame_len)
                 (qoa', ptr_merge bytes (unat p) view, p + frame_size)
      else (qoa, bytes, p))"
  by pat_completeness auto

termination
proof (relation "measure (\<lambda>(sample_data, sample_index, qoa, bytes, p).
          unat (samples qoa - word_of_int sample_index))", goal_cases)
  case 1
  show ?case by simp
next
  case (2 sample_data sample_index qoa bytes p frame_len frame_samples frame_size y qoa' view)
  have "samples (fst (snd (qoa_encode_frame frame_samples qoa (word_of_int frame_len)
          (ptr_add bytes (unat p))))) = samples qoa"
    by (simp add: qoa_encode_frame_fields)
  with 2 have "samples qoa' = samples qoa"
    by (metis fst_conv snd_conv)
  with 2(1,2) show ?case
    using frame_len_progress [of "word_of_int sample_index" "samples qoa"] by simp
qed

declare qoa_encode_frames.simps [simp del]


section \<open>The claims\<close>

lemma i32_id: "- (2 ^ 31) \<le> x \<Longrightarrow> x < 2 ^ 31 \<Longrightarrow> i32 x = x"
  by (simp add: i32_def signed_take_bit_int_eq_self)

lemma qoa_encode_init_lms:
  "c < n \<Longrightarrow>
   (let l = lms (fold (\<lambda>c qoa.
        let l = lms qoa c;
            l = l\<lparr>weights := (weights l)(0 := 0)\<rparr>;
            l = l\<lparr>weights := (weights l)(1 := 0)\<rparr>;
            l = l\<lparr>weights := (weights l)(2 := - (2 ^ 13))\<rparr>;
            l = l\<lparr>weights := (weights l)(3 := 2 ^ 14)\<rparr>;
            l = fold (\<lambda>i l. l\<lparr>history := (history l)(i := 0)\<rparr>) [0, 1, 2, 3] l
        in qoa\<lparr>lms := (lms qoa)(c := l)\<rparr>) [0..<n] qoa) c
    in weights l 0 = 0 \<and> weights l 1 = 0 \<and> weights l 2 = - 8192 \<and> weights l 3 = 16384 \<and>
       history l 0 = 0 \<and> history l 1 = 0 \<and> history l 2 = 0 \<and> history l 3 = 0)"
  by (induction n) (auto simp: Let_def less_Suc_eq)

lemma predict_initial:
  "weights l 0 = 0 \<Longrightarrow> weights l 1 = 0 \<Longrightarrow> history l 2 = 0 \<Longrightarrow> history l 3 = 0 \<Longrightarrow>
   qoa_lms_predict l = 0"
  by (simp add: qoa_lms_predict_def i32_def)

text \<open>
  Claim C8: when \<open>qoa_encode\<close> has run its initialisation loop, the LMS state of every
  channel \<open>c < channels\<close> has the weights 0, 0, -8192, 16384 and the history 0, 0, 0, 0,
  and \<open>qoa_lms_predict\<close> of that state is 0.
\<close>

theorem qoa_encode_initial_lms:
  assumes "c < unat (channels qoa)"
  shows "weights (lms (qoa_encode_init qoa) c) 0 = 0 \<and>
         weights (lms (qoa_encode_init qoa) c) 1 = 0 \<and>
         weights (lms (qoa_encode_init qoa) c) 2 = - 8192 \<and>
         weights (lms (qoa_encode_init qoa) c) 3 = 16384 \<and>
         history (lms (qoa_encode_init qoa) c) 0 = 0 \<and>
         history (lms (qoa_encode_init qoa) c) 1 = 0 \<and>
         history (lms (qoa_encode_init qoa) c) 2 = 0 \<and>
         history (lms (qoa_encode_init qoa) c) 3 = 0 \<and>
         qoa_lms_predict (lms (qoa_encode_init qoa) c) = 0"
proof -
  have *: "weights (lms (qoa_encode_init qoa) c) 0 = 0 \<and>
         weights (lms (qoa_encode_init qoa) c) 1 = 0 \<and>
         weights (lms (qoa_encode_init qoa) c) 2 = - 8192 \<and>
         weights (lms (qoa_encode_init qoa) c) 3 = 16384 \<and>
         history (lms (qoa_encode_init qoa) c) 0 = 0 \<and>
         history (lms (qoa_encode_init qoa) c) 1 = 0 \<and>
         history (lms (qoa_encode_init qoa) c) 2 = 0 \<and>
         history (lms (qoa_encode_init qoa) c) 3 = 0"
    using qoa_encode_init_lms [OF assms, of qoa]
    unfolding qoa_encode_init_def Let_def by simp
  then show ?thesis by (simp add: predict_initial)
qed

theorem qoa_encode_initial_lms_witness:
  "(0 :: nat) < unat (1 :: u32) \<and>
   weights (lms (qoa_encode_init \<lparr>channels = 1, samplerate = 8000, samples = 20,
       lms = \<lambda>c. \<lparr>history = \<lambda>i. 7, weights = \<lambda>i. 9\<rparr>\<rparr>) 0) 3 = 16384 \<and>
   qoa_lms_predict (lms (qoa_encode_init \<lparr>channels = 1, samplerate = 8000, samples = 20,
       lms = \<lambda>c. \<lparr>history = \<lambda>i. 7, weights = \<lambda>i. 9\<rparr>\<rparr>) 0) = 0"
  using qoa_encode_initial_lms [of 0 "\<lparr>channels = 1, samplerate = 8000, samples = 20,
       lms = \<lambda>c. \<lparr>history = \<lambda>i. 7, weights = \<lambda>i. 9\<rparr>\<rparr>"]
  by simp

lemma reciprocal_pos: "s < 16 \<Longrightarrow> 0 < qoa_reciprocal_tab ! s"
proof -
  have "\<forall>r \<in> set qoa_reciprocal_tab. 0 < r" by (simp add: qoa_reciprocal_tab_def)
  moreover have "length qoa_reciprocal_tab = 16" by (simp add: qoa_reciprocal_tab_def)
  ultimately show "s < 16 \<Longrightarrow> 0 < qoa_reciprocal_tab ! s" by (metis nth_mem)
qed

lemma qoa_div_zero: "qoa_div 0 s = 0"
  by (simp add: qoa_div_def i32_def b2i_def)

lemma qoa_div_sign:
  assumes r: "0 < qoa_reciprocal_tab ! s" and v: "v \<noteq> 0"
    and lo: "- (2 ^ 31) \<le> v * (qoa_reciprocal_tab ! s)"
    and hi: "v * (qoa_reciprocal_tab ! s) + 2 ^ 15 < 2 ^ 31"
  shows "(0 < v \<longrightarrow> 0 < qoa_div v s) \<and> (v < 0 \<longrightarrow> qoa_div v s < 0)"
proof -
  define r where "r = qoa_reciprocal_tab ! s"
  define n where "n = (v * r + 2 ^ 15) div 2 ^ 16"
  have a: "i32 (v * r) = v * r" using lo hi by (intro i32_id) (simp_all add: r_def)
  have b: "i32 (v * r + 32768) = v * r + 32768" using lo hi by (intro i32_id) (simp_all add: r_def)
  have d: "qoa_div v s = n + (b2i (v > 0) - b2i (v < 0)) - (b2i (n > 0) - b2i (n < 0))"
    by (simp add: qoa_div_def Let_def r_def [symmetric] a b n_def)
  have rp: "0 < r" using r by (simp add: r_def)
  show ?thesis
  proof (cases "0 < v")
    case True
    then have "0 \<le> v * r" using rp by simp
    then have "0 \<le> n" by (simp add: n_def pos_imp_zdiv_nonneg_iff)
    then show ?thesis using True by (simp add: d b2i_def)
  next
    case False
    with v have neg: "v < 0" by simp
    then have "v * r < 0" using rp by (simp add: mult_neg_pos)
    then have "v * r + 2 ^ 15 \<le> 65535" by simp
    then have "(v * r + 2 ^ 15) div 2 ^ 16 \<le> 65535 div 2 ^ 16" by (rule zdiv_mono1) simp
    then have "n \<le> 0" by (simp add: n_def)
    then show ?thesis using neg by (simp add: d b2i_def)
  qed
qed


text \<open>
  Claim C5, as amended: \<open>qoa_div 0 s\<close> is 0 for every scalefactor index \<open>s\<close> below 16, and
  for every nonzero \<open>v\<close> whose product with the reciprocal, and that product plus
  \<open>1 << 15\<close>, stay inside the 32-bit \<open>int\<close>, \<open>qoa_div v s\<close> is not 0 and has the sign
  of \<open>v\<close>.
\<close>

theorem qoa_div_rounds_away_from_zero:
  assumes "s < 16" and "v \<noteq> 0"
    and "- (2 ^ 31) \<le> v * (qoa_reciprocal_tab ! s)"
    and "v * (qoa_reciprocal_tab ! s) + 2 ^ 15 < 2 ^ 31"
  shows "qoa_div 0 s = 0 \<and> qoa_div v s \<noteq> 0 \<and> sgn (qoa_div v s) = sgn v"
proof -
  have "(0 < v \<longrightarrow> 0 < qoa_div v s) \<and> (v < 0 \<longrightarrow> qoa_div v s < 0)"
    using assms by (intro qoa_div_sign reciprocal_pos)
  with assms(2) show ?thesis
    by (cases "0 < v") (simp_all add: qoa_div_zero)
qed

theorem qoa_div_rounds_away_from_zero_witness:
  "qoa_div 0 15 = 0 \<and> qoa_div 1 15 \<noteq> 0 \<and> sgn (qoa_div 1 15) = sgn (1 :: int)"
  using qoa_div_rounds_away_from_zero [of 15 1]
  by (simp add: qoa_reciprocal_tab_def)

lemma frame_channels_range: "0 \<le> frame_channels h \<and> frame_channels h \<le> 255"
proof -
  have "drop_bit 56 h AND 0xff \<le> (0xff :: u64)" by (rule word_and_le1)
  then have "uint (drop_bit 56 h AND 0xff) \<le> uint (0xff :: u64)" by (simp only: word_le_def)
  then show ?thesis by (simp add: frame_channels_def)
qed

lemma frame_frame_size_range: "0 \<le> frame_frame_size h \<and> frame_frame_size h \<le> 65535"
proof -
  have "h AND 0xffff \<le> (0xffff :: u64)" by (rule word_and_le1)
  then have "uint (h AND 0xffff) \<le> uint (0xffff :: u64)" by (simp only: word_le_def)
  then show ?thesis by (simp add: frame_frame_size_def)
qed

lemma size_check_wrapped:
  fixes sz :: u32
  assumes "unat sz < 8 + 16 * unat (channels qoa)"
    and "\<not> sz < 8 + 4 * 4 * channels qoa"
  shows "word_of_int (frame_channels h) \<noteq> channels qoa"
proof
  assume eq: "word_of_int (frame_channels h) = channels qoa"
  have r: "0 \<le> frame_channels h \<and> frame_channels h \<le> 255" by (rule frame_channels_range)
  then have "uint (word_of_int (frame_channels h) :: u32) = frame_channels h"
    by (simp add: uint_word_of_int take_bit_int_eq_self)
  with eq r have c: "unat (channels qoa) \<le> 255" by (auto simp add: unat_eq_nat_uint)
  then have "unat (8 + 4 * 4 * channels qoa) = 8 + 16 * unat (channels qoa)"
    by (simp add: unat_word_ariths)
  with assms show False by (simp add: word_less_nat_alt)
qed

lemma qoa_decode_frame_rejected:
  assumes "unat sz < 8 + 16 * unat (channels qoa) \<or>
           word_of_int (frame_channels (fst (qoa_read_u64 bytes 0))) \<noteq> channels qoa \<or>
           word_of_int (frame_samplerate (fst (qoa_read_u64 bytes 0))) \<noteq> samplerate qoa \<or>
           unat sz < nat (frame_frame_size (fst (qoa_read_u64 bytes 0))) \<or>
           frame_samples (fst (qoa_read_u64 bytes 0)) * frame_channels (fst (qoa_read_u64 bytes 0)) >
             c_div (frame_frame_size (fst (qoa_read_u64 bytes 0)) - 8
                      - 16 * frame_channels (fst (qoa_read_u64 bytes 0))) 8 * 20"
  shows "qoa_decode_frame bytes sz qoa sample_data = (0, qoa, sample_data, 0)"
proof (cases "sz < 8 + 4 * 4 * channels qoa")
  case True
  then show ?thesis by (simp add: qoa_decode_frame_def)
next
  case False
  define h where "h = fst (qoa_read_u64 bytes 0)"
  have fs: "unat sz < nat (frame_frame_size h) \<Longrightarrow> word_of_int (frame_frame_size h) > sz"
  proof -
    assume a: "unat sz < nat (frame_frame_size h)"
    have r: "0 \<le> frame_frame_size h \<and> frame_frame_size h \<le> 65535"
      by (rule frame_frame_size_range)
    then have "uint (word_of_int (frame_frame_size h) :: u32) = frame_frame_size h"
      by (simp add: uint_word_of_int take_bit_int_eq_self)
    then have "unat (word_of_int (frame_frame_size h) :: u32) = nat (frame_frame_size h)"
      by (simp add: unat_eq_nat_uint)
    with a show ?thesis by (simp add: word_less_nat_alt)
  qed
  have "word_of_int (frame_channels h) \<noteq> channels qoa \<or>
        word_of_int (frame_samplerate h) \<noteq> samplerate qoa \<or>
        word_of_int (frame_frame_size h) > sz \<or>
        frame_samples h * frame_channels h >
          c_div (frame_frame_size h - 8 - 4 * 4 * frame_channels h) 8 * QOA_SLICE_LEN"
    using assms False size_check_wrapped [of sz qoa h] fs
    by (auto simp: h_def [symmetric] QOA_SLICE_LEN_def)
  with False show ?thesis
    by (simp add: qoa_decode_frame_def Let_def split_def h_def [symmetric])
qed

text \<open>
  Claim C7: \<open>qoa_decode_frame\<close> returns 0, with \<open>*frame_len\<close> 0 and nothing else changed,
  when \<open>size < 8 + 16 * channels\<close>, when the channel count or the samplerate of the
  frame header differs from the descriptor's, when \<open>frame_size > size\<close>, or when
  \<open>samples * channels > num_slices * 20\<close> with
  \<open>num_slices = (frame_size - 8 - 16 * channels) / 8\<close> in C's division.
\<close>

theorem qoa_decode_frame_rejects:
  assumes "unat sz < 8 + 16 * unat (channels qoa) \<or>
           word_of_int (frame_channels (fst (qoa_read_u64 bytes 0))) \<noteq> channels qoa \<or>
           word_of_int (frame_samplerate (fst (qoa_read_u64 bytes 0))) \<noteq> samplerate qoa \<or>
           unat sz < nat (frame_frame_size (fst (qoa_read_u64 bytes 0))) \<or>
           frame_samples (fst (qoa_read_u64 bytes 0)) * frame_channels (fst (qoa_read_u64 bytes 0)) >
             c_div (frame_frame_size (fst (qoa_read_u64 bytes 0)) - 8
                      - 16 * frame_channels (fst (qoa_read_u64 bytes 0))) 8 * 20"
  shows "qoa_decode_frame bytes sz qoa sample_data = (0, qoa, sample_data, 0)"
  using assms by (rule qoa_decode_frame_rejected)

theorem qoa_decode_frame_rejects_witness:
  "qoa_decode_frame (\<lambda>i. 0) 8
     \<lparr>channels = 1, samplerate = 8000, samples = 20,
      lms = \<lambda>c. \<lparr>history = \<lambda>i. 0, weights = \<lambda>i. 0\<rparr>\<rparr> (\<lambda>i. 0) =
   (0, \<lparr>channels = 1, samplerate = 8000, samples = 20,
      lms = \<lambda>c. \<lparr>history = \<lambda>i. 0, weights = \<lambda>i. 0\<rparr>\<rparr>, (\<lambda>i. 0), 0)"
  using qoa_decode_frame_rejects [of 8 "\<lparr>channels = 1, samplerate = 8000, samples = 20,
      lms = \<lambda>c. \<lparr>history = \<lambda>i. 0, weights = \<lambda>i. 0\<rparr>\<rparr>" "\<lambda>i. 0" "\<lambda>i. 0"]
  by simp

lemma for_range_length:
  "length (for_range i n step) = (if i < n \<and> 0 < step then nat ((n - i + step - 1) div step) else 0)"
proof (induction i n step rule: for_range.induct)
  case (1 i n step)
  show ?case
  proof (cases "i < n \<and> 0 < step")
    case False
    then show ?thesis by (subst for_range.simps) auto
  next
    case True
    then have st: "0 < step" and lt: "i < n" by simp_all
    have len: "length (for_range i n step) = Suc (length (for_range (i + step) n step))"
      using True by (subst for_range.simps) auto
    show ?thesis
    proof (cases "i + step < n")
      case True
      have "(n - i + step - 1) div step = (n - (i + step) + step - 1) div step + 1"
      proof -
        have "n - i + step - 1 = (n - (i + step) + step - 1) + 1 * step" by simp
        then show ?thesis using st by (metis div_add_self2 less_irrefl mult_1 add.commute div_mult_self1 mult.commute)
      qed
      moreover have "0 \<le> (n - (i + step) + step - 1) div step"
        using True st by (simp add: pos_imp_zdiv_nonneg_iff)
      ultimately show ?thesis using 1 True st lt len by (simp add: nat_add_distrib)
    next
      case False
      then have "0 \<le> n - i - 1" "n - i - 1 < step" using lt by simp_all
      then have "(n - i - 1 + step) div step = 1"
        using st by (metis add.commute div_pos_pos_trivial div_add_self1 less_irrefl add_0)
      then have "(n - i + step - 1) div step = 1" by (simp add: algebra_simps)
      then show ?thesis using 1 False st lt len by simp
    qed
  qed
qed

lemma frame_samples_range: "0 \<le> frame_samples h \<and> frame_samples h \<le> 65535"
proof -
  have "drop_bit 16 h AND 0xffff \<le> (0xffff :: u64)" by (rule word_and_le1)
  then have "uint (drop_bit 16 h AND 0xffff) \<le> uint (0xffff :: u64)" by (simp only: word_le_def)
  then show ?thesis by (simp add: frame_samples_def)
qed

lemma unat_of_nat_u32: "n < 2 ^ 32 \<Longrightarrow> unat (of_nat n :: u32) = n"
  by (simp add: unat_of_nat)

lemma fold_fst_add:
  fixes k :: "'a :: comm_semiring_1"
  assumes "\<And>x s. fst (f x s) = fst s + k"
  shows "fst (fold f xs s) = fst s + of_nat (length xs) * k"
  by (induction xs arbitrary: s) (simp_all add: assms algebra_simps)

lemma qoa_read_u64_snd: "snd (qoa_read_u64 bytes p) = p + 8"
  by (simp add: qoa_read_u64_def Let_def)

lemma qoa_decode_lms_state_fst:
  "fst (qoa_decode_lms_state bytes chans st) = fst st + of_nat (nat chans) * 16"
proof -
  have "fst (fold (\<lambda>c (p, qoa).
        let (history_w, p) = qoa_read_u64 bytes p;
            (weights_w, p) = qoa_read_u64 bytes p
        in (p, qoa\<lparr>lms := (lms qoa)(c := qoa_decode_lms_words history_w weights_w (lms qoa c))\<rparr>))
       [0..<nat chans] st) = fst st + of_nat (length [0..<nat chans]) * 16"
    by (rule fold_fst_add) (simp add: split_def Let_def qoa_read_u64_snd)
  then show ?thesis by (simp add: qoa_decode_lms_state_def)
qed

lemma qoa_decode_slice_fst:
  "fst (qoa_decode_slice bytes chans smpls sample_index c st) = fst st + 8"
  by (simp add: qoa_decode_slice_def split_def Let_def qoa_read_u64_snd)

lemma qoa_decode_slices_fst:
  "fst (qoa_decode_slices bytes chans smpls st) =
     fst st + of_nat (length (for_range 0 smpls QOA_SLICE_LEN)) * (of_nat (nat chans) * 8)"
  unfolding qoa_decode_slices_def
proof (rule fold_fst_add)
  fix x s
  have "fst (fold (qoa_decode_slice bytes chans smpls x) [0..<nat chans] s) =
        fst s + of_nat (length [0..<nat chans]) * 8"
    by (rule fold_fst_add) (rule qoa_decode_slice_fst)
  then show "fst (fold (qoa_decode_slice bytes chans smpls x) [0..<nat chans] s) =
        fst s + of_nat (nat chans) * 8" by simp
qed

lemma qoa_decode_frame_accepts:
  assumes "\<not> sz < 8 + 4 * 4 * channels qoa"
    and "h = fst (qoa_read_u64 bytes 0)"
    and "word_of_int (frame_channels h) = channels qoa"
    and "word_of_int (frame_samplerate h) = samplerate qoa"
    and "\<not> word_of_int (frame_frame_size h) > sz"
    and "\<not> frame_samples h * frame_channels h >
           c_div (frame_frame_size h - 8 - 4 * 4 * frame_channels h) 8 * QOA_SLICE_LEN"
  shows "qoa_decode_frame bytes sz qoa sample_data =
     (let st = qoa_decode_lms_state bytes (frame_channels h) (8, qoa);
          st' = qoa_decode_slices bytes (frame_channels h) (frame_samples h)
                  (fst st, snd st, sample_data)
      in (fst st', fst (snd st'), snd (snd st'), word_of_int (frame_samples h)))"
  using assms
  by (simp add: qoa_decode_frame_def Let_def split_def qoa_read_u64_snd)

lemma qoa_decode_frame_consumed:
  assumes "\<not> sz < 8 + 4 * 4 * channels qoa"
    and "h = fst (qoa_read_u64 bytes 0)"
    and "word_of_int (frame_channels h) = channels qoa"
    and "word_of_int (frame_samplerate h) = samplerate qoa"
    and "\<not> word_of_int (frame_frame_size h) > sz"
    and "\<not> frame_samples h * frame_channels h >
           c_div (frame_frame_size h - 8 - 4 * 4 * frame_channels h) 8 * QOA_SLICE_LEN"
  shows "unat (fst (qoa_decode_frame bytes sz qoa sample_data)) =
     8 + 16 * nat (frame_channels h) + 8 * nat ((frame_samples h + 19) div 20) * nat (frame_channels h)"
proof -
  define ch where "ch = nat (frame_channels h)"
  define n where "n = nat ((frame_samples h + 19) div 20)"
  have len: "length (for_range 0 (frame_samples h) QOA_SLICE_LEN) = n"
    using frame_samples_range [of h]
    by (auto simp add: for_range_length QOA_SLICE_LEN_def n_def add.commute)
  have "ch \<le> 255" using frame_channels_range [of h] unfolding ch_def by linarith
  moreover have "n \<le> 3277"
  proof -
    have "(frame_samples h + 19) div 20 \<le> (65535 + 19) div 20"
      using frame_samples_range [of h] by (intro zdiv_mono1) simp_all
    then show ?thesis unfolding n_def by linarith
  qed
  ultimately have "n * ch \<le> 3277 * 255" by (intro mult_le_mono)
  with \<open>ch \<le> 255\<close> have bound: "8 + 16 * ch + 8 * n * ch < 2 ^ 32" by simp
  have "fst (qoa_decode_frame bytes sz qoa sample_data) =
        8 + of_nat ch * 16 + of_nat n * (of_nat ch * 8)"
    by (simp add: qoa_decode_frame_accepts [OF assms] Let_def qoa_decode_slices_fst
        qoa_decode_lms_state_fst len ch_def)
  also have "\<dots> = (of_nat (8 + 16 * ch + 8 * n * ch) :: u32)" by simp
  finally show ?thesis
    using bound by (simp only: unat_of_nat_u32 ch_def [symmetric] n_def [symmetric])
qed

lemma example_frame_header:
  "fst (qoa_read_u64 (\<lambda>i. if i < 8 then [1, 0, 0, 1, 0, 1, 0, 40] ! i else 0) 0) =
     0x0100000100010028"
  by (simp add: qoa_read_u64_def ptr_add_def)

lemma example_frame_fields:
  "frame_channels 0x0100000100010028 = 1"
  "frame_samplerate 0x0100000100010028 = 1"
  "frame_samples 0x0100000100010028 = 1"
  "frame_frame_size 0x0100000100010028 = 40"
  by (simp_all add: frame_channels_def frame_samplerate_def frame_samples_def frame_frame_size_def)

lemma example_frame_consumed:
  "unat (fst (qoa_decode_frame (\<lambda>i. if i < 8 then [1, 0, 0, 1, 0, 1, 0, 40] ! i else 0) 40
      \<lparr>channels = 1, samplerate = 1, samples = 1,
       lms = \<lambda>c. \<lparr>history = \<lambda>i. 0, weights = \<lambda>i. 0\<rparr>\<rparr> (\<lambda>i. 0))) = 32"
  by (subst qoa_decode_frame_consumed [where h = "0x0100000100010028"])
     (simp_all add: example_frame_header example_frame_fields c_div_def QOA_SLICE_LEN_def)

text \<open>
  Claim C9: for a frame that passes the checks of \<open>qoa_decode_frame\<close>, the number of
  bytes returned is \<open>8 + 16 * channels + 8 * ceil (samples / 20) * channels\<close>, with the
  channels and samples of the frame header. It can be less than the header's
  \<open>frame_size\<close>: the frame of one channel with one sample and \<open>frame_size = 40\<close>
  consumes 32 bytes.
\<close>

theorem qoa_decode_frame_consumed_bytes:
  assumes "\<not> sz < 8 + 4 * 4 * channels qoa"
    and "h = fst (qoa_read_u64 bytes 0)"
    and "word_of_int (frame_channels h) = channels qoa"
    and "word_of_int (frame_samplerate h) = samplerate qoa"
    and "\<not> word_of_int (frame_frame_size h) > sz"
    and "\<not> frame_samples h * frame_channels h >
           c_div (frame_frame_size h - 8 - 4 * 4 * frame_channels h) 8 * QOA_SLICE_LEN"
  shows "unat (fst (qoa_decode_frame bytes sz qoa sample_data)) =
           8 + 16 * nat (frame_channels h) +
           8 * nat ((frame_samples h + 19) div 20) * nat (frame_channels h) \<and>
         unat (fst (qoa_decode_frame (\<lambda>i. if i < 8 then [1, 0, 0, 1, 0, 1, 0, 40] ! i else 0) 40
            \<lparr>channels = 1, samplerate = 1, samples = 1,
             lms = \<lambda>c. \<lparr>history = \<lambda>i. 0, weights = \<lambda>i. 0\<rparr>\<rparr> (\<lambda>i. 0))) = 32 \<and>
         frame_frame_size
           (fst (qoa_read_u64 (\<lambda>i. if i < 8 then [1, 0, 0, 1, 0, 1, 0, 40] ! i else 0) 0)) = 40"
  using qoa_decode_frame_consumed [OF assms] example_frame_consumed
  by (simp add: example_frame_header example_frame_fields)

theorem qoa_decode_frame_consumed_bytes_witness:
  "unat (fst (qoa_decode_frame (\<lambda>i. if i < 8 then [1, 0, 0, 1, 0, 0, 0, 24] ! i else 0) 24
      \<lparr>channels = 1, samplerate = 1, samples = 1,
       lms = \<lambda>c. \<lparr>history = \<lambda>i. 0, weights = \<lambda>i. 0\<rparr>\<rparr> (\<lambda>i. 0))) = 24"
proof -
  have h: "fst (qoa_read_u64 (\<lambda>i. if i < 8 then [1, 0, 0, 1, 0, 0, 0, 24] ! i else 0) 0) =
      0x0100000100000018"
    by (simp add: qoa_read_u64_def ptr_add_def)
  have f: "frame_channels 0x0100000100000018 = 1" "frame_samplerate 0x0100000100000018 = 1"
    "frame_samples 0x0100000100000018 = 0" "frame_frame_size 0x0100000100000018 = 24"
    by (simp_all add: frame_channels_def frame_samplerate_def frame_samples_def
        frame_frame_size_def)
  show ?thesis
    using qoa_decode_frame_consumed_bytes [of 24 "\<lparr>channels = 1, samplerate = 1, samples = 1,
       lms = \<lambda>c. \<lparr>history = \<lambda>i. 0, weights = \<lambda>i. 0\<rparr>\<rparr>" "0x0100000100000018"
       "\<lambda>i. if i < 8 then [1, 0, 0, 1, 0, 0, 0, 24] ! i else 0" "\<lambda>i. 0"]
    by (simp add: h f c_div_def QOA_SLICE_LEN_def)
qed

definition is_short :: "int \<Rightarrow> bool" where
  "is_short x = (- 32768 \<le> x \<and> x \<le> 32767)"

definition history_is_short :: "qoa_lms_t \<Rightarrow> bool" where
  "history_is_short l = (\<forall>i < 4. is_short (history l i))"

lemma qoa_clamp_is_short: "is_short (qoa_clamp v (- 32768) 32767)"
  by (simp add: qoa_clamp_def is_short_def)

lemma qoa_lms_update_history:
  "history (qoa_lms_update l s r) i =
     (if i = 3 then s else if i < 3 then history l (i + 1) else history l i)"
proof -
  have "i < 3 \<Longrightarrow> i = 0 \<or> i = 1 \<or> i = 2" by arith
  then show ?thesis
    by (auto simp add: qoa_lms_update_def Let_def QOA_LMS_LEN_def)
qed

lemma qoa_lms_update_short:
  "history_is_short l \<Longrightarrow> is_short s \<Longrightarrow> history_is_short (qoa_lms_update l s r)"
  by (simp add: history_is_short_def qoa_lms_update_history)

lemma sint16_is_short: "is_short (sint (w :: 16 word))"
  using sint_ge [of w] sint_lt [of w] by (simp add: is_short_def)

lemma qoa_decode_lms_words_short:
  "history_is_short (qoa_decode_lms_words history_w weights_w l)"
  by (simp add: qoa_decode_lms_words_def history_is_short_def sint16_is_short less_Suc_eq
      numeral_eq_Suc)

lemma qoa_decode_residuals_short:
  "history_is_short l \<Longrightarrow> (\<forall>i. sd i = sd0 i \<or> is_short (sd i)) \<Longrightarrow>
   history_is_short (fst (snd (qoa_decode_residuals sf sis (w, l, sd)))) \<and>
   (\<forall>i. snd (snd (qoa_decode_residuals sf sis (w, l, sd))) i = sd0 i \<or>
        is_short (snd (snd (qoa_decode_residuals sf sis (w, l, sd))) i))"
proof (induction sis arbitrary: w l sd)
  case Nil
  then show ?case by simp
next
  case (Cons si sis)
  show ?case
    unfolding qoa_decode_residuals.simps Let_def
    by (rule Cons.IH) (use Cons.prems in \<open>simp_all add: qoa_lms_update_short qoa_clamp_is_short\<close>)
qed

definition decode_state_short ::
    "nat \<Rightarrow> (nat \<Rightarrow> int) \<Rightarrow> u32 \<times> qoa_desc \<times> (nat \<Rightarrow> int) \<Rightarrow> bool" where
  "decode_state_short n sd0 st =
     ((\<forall>c < n. history_is_short (lms (fst (snd st)) c)) \<and>
      (\<forall>i. snd (snd st) i = sd0 i \<or> is_short (snd (snd st) i)))"

lemma qoa_decode_slice_short:
  assumes "c < n" and "decode_state_short n sd0 st"
  shows "decode_state_short n sd0 (qoa_decode_slice bytes chans smpls sample_index c st)"
proof -
  define r where "r = qoa_decode_residuals
      (unat (drop_bit 60 (fst (qoa_read_u64 bytes (fst st))) AND 0xf))
      (for_range (sample_index * chans + int c)
         (qoa_clamp (sample_index + QOA_SLICE_LEN) 0 smpls * chans + int c) chans)
      (fst (qoa_read_u64 bytes (fst st)), lms (fst (snd st)) c, snd (snd st))"
  have res: "lms (fst (snd (qoa_decode_slice bytes chans smpls sample_index c st))) =
          (lms (fst (snd st)))(c := fst (snd r))"
    "snd (snd (qoa_decode_slice bytes chans smpls sample_index c st)) = snd (snd r)"
    by (simp_all add: qoa_decode_slice_def split_def Let_def r_def)
  have "history_is_short (lms (fst (snd st)) c)"
    and "\<forall>i. snd (snd st) i = sd0 i \<or> is_short (snd (snd st) i)"
    using assms by (simp_all add: decode_state_short_def)
  then have "history_is_short (fst (snd r)) \<and> (\<forall>i. snd (snd r) i = sd0 i \<or> is_short (snd (snd r) i))"
    unfolding r_def by (rule qoa_decode_residuals_short)
  with assms(2) show ?thesis
    by (simp add: decode_state_short_def res)
qed

lemma qoa_decode_slices_short:
  assumes "decode_state_short (nat chans) sd0 st"
  shows "decode_state_short (nat chans) sd0 (qoa_decode_slices bytes chans smpls st)"
  unfolding qoa_decode_slices_def
proof (rule fold_invariant [where P = "decode_state_short (nat chans) sd0"])
  show "decode_state_short (nat chans) sd0 st" by (rule assms)
next
  fix x s
  assume s: "decode_state_short (nat chans) sd0 s"
  show "decode_state_short (nat chans) sd0
          (fold (qoa_decode_slice bytes chans smpls x) [0..<nat chans] s)"
  proof (rule fold_invariant [where P = "decode_state_short (nat chans) sd0"])
    show "decode_state_short (nat chans) sd0 s" by (rule s)
  next
    fix c t
    assume "c \<in> set [0..<nat chans]" and "decode_state_short (nat chans) sd0 t"
    then show "decode_state_short (nat chans) sd0 (qoa_decode_slice bytes chans smpls x c t)"
      by (intro qoa_decode_slice_short) simp_all
  qed
qed

lemma qoa_decode_lms_state_short:
  "c < n \<Longrightarrow>
   history_is_short (lms (snd (fold (\<lambda>c (p, qoa).
        let (history_w, p) = qoa_read_u64 bytes p;
            (weights_w, p) = qoa_read_u64 bytes p
        in (p, qoa\<lparr>lms := (lms qoa)(c := qoa_decode_lms_words history_w weights_w (lms qoa c))\<rparr>))
       [0..<n] st)) c)"
  by (induction n) (auto simp: split_def Let_def less_Suc_eq qoa_decode_lms_words_short)

lemma qoa_decode_lms_state_short':
  "c < nat chans \<Longrightarrow> history_is_short (lms (snd (qoa_decode_lms_state bytes chans st)) c)"
  unfolding qoa_decode_lms_state_def by (rule qoa_decode_lms_state_short)

lemma qoa_decode_frame_short:
  assumes "\<not> sz < 8 + 4 * 4 * channels qoa"
    and "h = fst (qoa_read_u64 bytes 0)"
    and "word_of_int (frame_channels h) = channels qoa"
    and "word_of_int (frame_samplerate h) = samplerate qoa"
    and "\<not> word_of_int (frame_frame_size h) > sz"
    and "\<not> frame_samples h * frame_channels h >
           c_div (frame_frame_size h - 8 - 4 * 4 * frame_channels h) 8 * QOA_SLICE_LEN"
  shows "decode_state_short (nat (frame_channels h)) sample_data
           (fst (qoa_decode_frame bytes sz qoa sample_data),
            fst (snd (qoa_decode_frame bytes sz qoa sample_data)),
            fst (snd (snd (qoa_decode_frame bytes sz qoa sample_data))))"
proof -
  define st where "st = qoa_decode_lms_state bytes (frame_channels h) (8, qoa)"
  have "decode_state_short (nat (frame_channels h)) sample_data (fst st, snd st, sample_data)"
    by (simp add: decode_state_short_def st_def qoa_decode_lms_state_short')
  then have "decode_state_short (nat (frame_channels h)) sample_data
      (qoa_decode_slices bytes (frame_channels h) (frame_samples h) (fst st, snd st, sample_data))"
    by (rule qoa_decode_slices_short)
  then show ?thesis
    by (simp add: qoa_decode_frame_accepts [OF assms] Let_def st_def)
qed

text \<open>
  Claim C10: every value that \<open>qoa_decode_frame\<close> stores in the sample buffer lies in
  -32768 .. 32767 (a cell of the buffer is as before or holds such a value), after the
  frame the LMS history of every channel of the frame holds such values only, and
  \<open>qoa_lms_update\<close> with a clamped sample keeps a history in that range; this for any
  bytes that pass the checks of the frame.
\<close>

theorem qoa_decode_frame_in_short_range:
  assumes "\<not> sz < 8 + 4 * 4 * channels qoa"
    and "h = fst (qoa_read_u64 bytes 0)"
    and "word_of_int (frame_channels h) = channels qoa"
    and "word_of_int (frame_samplerate h) = samplerate qoa"
    and "\<not> word_of_int (frame_frame_size h) > sz"
    and "\<not> frame_samples h * frame_channels h >
           c_div (frame_frame_size h - 8 - 4 * 4 * frame_channels h) 8 * QOA_SLICE_LEN"
  shows "(\<forall>i. fst (snd (snd (qoa_decode_frame bytes sz qoa sample_data))) i = sample_data i \<or>
              is_short (fst (snd (snd (qoa_decode_frame bytes sz qoa sample_data))) i)) \<and>
         (\<forall>c < nat (frame_channels h).
              history_is_short (lms (fst (snd (qoa_decode_frame bytes sz qoa sample_data))) c)) \<and>
         (\<forall>l v r. history_is_short l \<longrightarrow>
              history_is_short (qoa_lms_update l (qoa_clamp v (- 32768) 32767) r))"
  using qoa_decode_frame_short [OF assms, of sample_data]
  by (simp add: decode_state_short_def qoa_lms_update_short qoa_clamp_is_short)

theorem qoa_decode_frame_in_short_range_witness:
  "history_is_short (lms (fst (snd (qoa_decode_frame (\<lambda>i. if i < 8 then [1, 0, 0, 1, 0, 1, 0, 32] ! i else 0) 32
      \<lparr>channels = 1, samplerate = 1, samples = 1,
       lms = \<lambda>c. \<lparr>history = \<lambda>i. 0, weights = \<lambda>i. 0\<rparr>\<rparr> (\<lambda>i. 0)))) 0)"
proof -
  have h: "fst (qoa_read_u64 (\<lambda>i. if i < 8 then [1, 0, 0, 1, 0, 1, 0, 32] ! i else 0) 0) = 0x0100000100010020"
    by (simp add: qoa_read_u64_def ptr_add_def)
  have f: "frame_channels 0x0100000100010020 = 1" "frame_samplerate 0x0100000100010020 = 1"
    "frame_samples 0x0100000100010020 = 1" "frame_frame_size 0x0100000100010020 = 32"
    by (simp_all add: frame_channels_def frame_samplerate_def frame_samples_def
        frame_frame_size_def)
  show ?thesis
    using qoa_decode_frame_in_short_range [of 32 "\<lparr>channels = 1, samplerate = 1, samples = 1,
       lms = \<lambda>c. \<lparr>history = \<lambda>i. 0, weights = \<lambda>i. 0\<rparr>\<rparr>" "0x0100000100010020"
       "\<lambda>i. if i < 8 then [1, 0, 0, 1, 0, 1, 0, 32] ! i else 0" "\<lambda>i. 0"]
    by (simp add: h f c_div_def QOA_SLICE_LEN_def)
qed

lemma ptr_merge_ptr_add: "ptr_merge m p (ptr_add m p) = m"
  by (auto simp: ptr_merge_def ptr_add_def)

lemma qoa_decode_frame_zero:
  assumes "fst (qoa_decode_frame bytes sz qoa sample_data) = 0"
  shows "qoa_decode_frame bytes sz qoa sample_data = (0, qoa, sample_data, 0)"
proof (rule ccontr)
  assume n: "qoa_decode_frame bytes sz qoa sample_data \<noteq> (0, qoa, sample_data, 0)"
  define h where "h = fst (qoa_read_u64 bytes 0)"
  from n have a: "\<not> sz < 8 + 4 * 4 * channels qoa"
    and b: "word_of_int (frame_channels h) = channels qoa"
      "word_of_int (frame_samplerate h) = samplerate qoa"
      "\<not> word_of_int (frame_frame_size h) > sz"
      "\<not> frame_samples h * frame_channels h >
           c_div (frame_frame_size h - 8 - 4 * 4 * frame_channels h) 8 * QOA_SLICE_LEN"
    by (auto simp: qoa_decode_frame_def Let_def split_def h_def split: if_splits)
  have "unat (fst (qoa_decode_frame bytes sz qoa sample_data)) =
     8 + 16 * nat (frame_channels h) + 8 * nat ((frame_samples h + 19) div 20) * nat (frame_channels h)"
    using a h_def b by (rule qoa_decode_frame_consumed)
  with assms show False by simp
qed

lemma qoa_decode_header_channels:
  assumes "fst (qoa_decode_header bytes sz qoa) \<noteq> 0"
  shows "fst (qoa_decode_header bytes sz qoa) = 8 \<and> channels (snd (qoa_decode_header bytes sz qoa)) \<noteq> 0"
  using assms by (auto simp: qoa_decode_header_def Let_def split_def split: if_splits)

lemma example_file_header:
  "qoa_decode_header
     (\<lambda>i. if i < 16 then [0x71, 0x6f, 0x61, 0x66, 0, 0, 0, 1, 1, 0, 0, 1, 0, 0, 0, 0] ! i else 0) 16
     \<lparr>channels = 0, samplerate = 0, samples = 0,
      lms = \<lambda>c. \<lparr>history = \<lambda>i. 0, weights = \<lambda>i. 0\<rparr>\<rparr> =
   (8, \<lparr>channels = 1, samplerate = 1, samples = 1,
      lms = \<lambda>c. \<lparr>history = \<lambda>i. 0, weights = \<lambda>i. 0\<rparr>\<rparr>)"
  by (simp add: qoa_decode_header_def qoa_read_u64_def ptr_add_def QOA_MIN_FILESIZE_def
      QOA_MAGIC_def Let_def)

lemma qoa_decode_frames_stop:
  assumes "fst (qoa_decode_frame (ptr_add bytes (unat p)) (word_of_int sz - p) qoa
             (ptr_add buffer (unat (sample_index * channels qoa)))) = 0"
  shows "qoa_decode_frames bytes sz qoa (Some buffer) p sample_index =
           Some (qoa, Some buffer, sample_index)"
  by (subst qoa_decode_frames.simps)
     (simp add: qoa_decode_frame_zero [OF assms] ptr_merge_ptr_add)

lemma qoa_decode_frames_null_stop:
  assumes "fst (qoa_decode_frame (ptr_add bytes (unat p)) (word_of_int sz - p) qoa (\<lambda>i. 0)) = 0"
  shows "qoa_decode_frames bytes sz qoa None p sample_index = Some (qoa, None, sample_index)"
  by (subst qoa_decode_frames.simps) (simp add: qoa_decode_frame_zero [OF assms])

lemma qoa_decode_frames_rounds:
  "qoa_decode_rounds k bytes sz (qoa, buffer, p, sample_index) = Some (qoa', buffer', p', n) \<Longrightarrow>
   qoa_decode_frames bytes sz qoa (Some buffer) p sample_index =
     qoa_decode_frames bytes sz qoa' (Some buffer') p' n"
proof (induction k arbitrary: qoa buffer p sample_index)
  case 0
  then show ?case by simp
next
  case (Suc k)
  obtain fs q v fl where r: "qoa_decode_frame (ptr_add bytes (unat p)) (word_of_int sz - p) qoa
             (ptr_add buffer (unat (sample_index * channels qoa))) = (fs, q, v, fl)"
    by (metis prod_cases4)
  from Suc.prems r have c: "fs \<noteq> 0 \<and> sample_index + fl < samples q"
    and s: "qoa_decode_rounds k bytes sz
       (q, ptr_merge buffer (unat (sample_index * channels qoa)) v, p + fs, sample_index + fl) =
       Some (qoa', buffer', p', n)"
    by (simp_all split: if_splits)
  have "qoa_decode_frames bytes sz qoa (Some buffer) p sample_index =
     qoa_decode_frames bytes sz q
       (Some (ptr_merge buffer (unat (sample_index * channels qoa)) v)) (p + fs) (sample_index + fl)"
    using c by (subst qoa_decode_frames.simps) (simp add: r)
  with Suc.IH [OF s] show ?case by simp
qed

lemma qoa_decode_stops:
  assumes "qoa_decode_header bytes sz qoa = (p, qoa1)" and "p \<noteq> 0"
    and "QOA_MALLOC (word_of_int (sint (samples qoa1 * channels qoa1)) * 2) heap = Some buffer"
    and "qoa_decode_rounds k bytes sz (qoa1, buffer, p, 0) = Some (qoa', buffer', p', n)"
    and "fst (qoa_decode_frame (ptr_add bytes (unat p')) (word_of_int sz - p') qoa'
               (ptr_add buffer' (unat (n * channels qoa')))) = 0"
  shows "qoa_decode bytes sz qoa heap =
     Some (Some (buffer', sint (samples qoa1 * channels qoa1)), qoa'\<lparr>samples := n\<rparr>)"
  using qoa_decode_frames_rounds [OF assms(4)] qoa_decode_frames_stop [OF assms(5)] assms(1,2,3)
  by (simp add: qoa_decode_def Let_def)

lemma qoa_decode_header_null:
  assumes "fst (qoa_decode_header bytes sz qoa) = 0"
  shows "qoa_decode bytes sz qoa heap = Some (None, snd (qoa_decode_header bytes sz qoa))"
  using assms by (simp add: qoa_decode_def split_def)

lemma qoa_decode_16:
  assumes "fst (qoa_decode_header bytes 16 qoa) \<noteq> 0"
  shows "qoa_decode bytes 16 qoa heap =
     Some (map_option (\<lambda>buffer. (buffer, sint (samples (snd (qoa_decode_header bytes 16 qoa)) *
                         channels (snd (qoa_decode_header bytes 16 qoa)))))
             (QOA_MALLOC (word_of_int (sint (samples (snd (qoa_decode_header bytes 16 qoa)) *
                         channels (snd (qoa_decode_header bytes 16 qoa)))) * 2) heap),
           (snd (qoa_decode_header bytes 16 qoa))\<lparr>samples := 0\<rparr>)"
proof -
  define q where "q = snd (qoa_decode_header bytes 16 qoa)"
  define m :: "(nat \<Rightarrow> int) option"
    where "m = QOA_MALLOC (scast (samples q * channels q) * 2) heap"
  have p: "fst (qoa_decode_header bytes 16 qoa) = 8" and c: "channels q \<noteq> 0"
    using qoa_decode_header_channels [OF assms] by (simp_all add: q_def)
  from c have "0 < unat (channels q)" by (simp add: unat_gt_0)
  then have lt: "unat (8 :: u32) < 8 + 16 * unat (channels q)" by simp
  have rej: "qoa_decode_frame (ptr_add bytes 8) 8 q v = (0, q, v, 0)" for v
    using lt by (intro qoa_decode_frame_rejected) simp
  have "qoa_decode_frames bytes 16 q m 8 0 = Some (q, m, 0)"
  proof (cases m)
    case None
    have "qoa_decode_frames bytes 16 q None 8 0 = Some (q, None, 0)"
      by (rule qoa_decode_frames_null_stop) (simp add: rej)
    with None show ?thesis by simp
  next
    case (Some b)
    have "qoa_decode_frames bytes 16 q (Some b) 8 0 = Some (q, Some b, 0)"
      by (rule qoa_decode_frames_stop) (simp add: rej)
    with Some show ?thesis by simp
  qed
  then show ?thesis
    using p by (simp add: qoa_decode_def split_def q_def [symmetric] m_def [symmetric] Let_def)
qed

lemma qoa_decode_lms_state_fields:
  "channels (snd (qoa_decode_lms_state bytes chans st)) = channels (snd st) \<and>
   samplerate (snd (qoa_decode_lms_state bytes chans st)) = samplerate (snd st) \<and>
   samples (snd (qoa_decode_lms_state bytes chans st)) = samples (snd st)"
  unfolding qoa_decode_lms_state_def
  by (rule fold_invariant, simp, simp add: split_def Let_def)

lemma qoa_decode_slice_fields:
  "channels (fst (snd (qoa_decode_slice bytes chans smpls sample_index c st))) = channels (fst (snd st)) \<and>
   samplerate (fst (snd (qoa_decode_slice bytes chans smpls sample_index c st))) = samplerate (fst (snd st)) \<and>
   samples (fst (snd (qoa_decode_slice bytes chans smpls sample_index c st))) = samples (fst (snd st))"
  by (simp add: qoa_decode_slice_def Let_def split_def)

lemma qoa_decode_slices_fields:
  "channels (fst (snd (qoa_decode_slices bytes chans smpls st))) = channels (fst (snd st)) \<and>
   samplerate (fst (snd (qoa_decode_slices bytes chans smpls st))) = samplerate (fst (snd st)) \<and>
   samples (fst (snd (qoa_decode_slices bytes chans smpls st))) = samples (fst (snd st))"
  unfolding qoa_decode_slices_def
  by (rule fold_invariant, simp, rule fold_invariant, simp, simp only: qoa_decode_slice_fields)

lemma qoa_decode_frame_fields:
  "channels (fst (snd (qoa_decode_frame bytes sz qoa sample_data))) = channels qoa \<and>
   samplerate (fst (snd (qoa_decode_frame bytes sz qoa sample_data))) = samplerate qoa \<and>
   samples (fst (snd (qoa_decode_frame bytes sz qoa sample_data))) = samples qoa"
  by (simp add: qoa_decode_frame_def Let_def split_def qoa_decode_slices_fields
      qoa_decode_lms_state_fields)




text \<open>A file of 40 bytes: 40 samples by its file header, and one frame of 20 samples.\<close>

definition example_file :: "nat \<Rightarrow> u8" where
  "example_file = (\<lambda>i. if i < 16
     then [0x71, 0x6f, 0x61, 0x66, 0, 0, 0, 40, 1, 0, 0, 1, 0, 20, 0, 32] ! i else 0)"

lemma example_file_40_header:
  "qoa_decode_header example_file 40
     \<lparr>channels = 0, samplerate = 0, samples = 0,
      lms = \<lambda>c. \<lparr>history = \<lambda>i. 0, weights = \<lambda>i. 0\<rparr>\<rparr> =
   (8, \<lparr>channels = 1, samplerate = 1, samples = 40,
      lms = \<lambda>c. \<lparr>history = \<lambda>i. 0, weights = \<lambda>i. 0\<rparr>\<rparr>)"
  by (simp add: qoa_decode_header_def qoa_read_u64_def ptr_add_def QOA_MIN_FILESIZE_def
      QOA_MAGIC_def Let_def example_file_def)

lemma example_file_40_frame_header:
  "fst (qoa_read_u64 (ptr_add example_file 8) 0) = 0x0100000100140020"
  by (simp add: qoa_read_u64_def ptr_add_def example_file_def)

lemma example_file_40_frame_fields:
  "frame_channels 0x0100000100140020 = 1"
  "frame_samplerate 0x0100000100140020 = 1"
  "frame_samples 0x0100000100140020 = 20"
  "frame_frame_size 0x0100000100140020 = 32"
  by (simp_all add: frame_channels_def frame_samplerate_def frame_samples_def frame_frame_size_def)

lemma example_file_40_frame:
  "fst (qoa_decode_frame (ptr_add example_file 8) 32
      \<lparr>channels = 1, samplerate = 1, samples = 40,
       lms = \<lambda>c. \<lparr>history = \<lambda>i. 0, weights = \<lambda>i. 0\<rparr>\<rparr> sample_data) = 32"
  "snd (snd (snd (qoa_decode_frame (ptr_add example_file 8) 32
      \<lparr>channels = 1, samplerate = 1, samples = 40,
       lms = \<lambda>c. \<lparr>history = \<lambda>i. 0, weights = \<lambda>i. 0\<rparr>\<rparr> sample_data))) = 20"
proof -
  have "unat (fst (qoa_decode_frame (ptr_add example_file 8) 32
      \<lparr>channels = 1, samplerate = 1, samples = 40,
       lms = \<lambda>c. \<lparr>history = \<lambda>i. 0, weights = \<lambda>i. 0\<rparr>\<rparr> sample_data)) = 32"
    by (subst qoa_decode_frame_consumed [where h = "0x0100000100140020"])
       (simp_all add: example_file_40_frame_header example_file_40_frame_fields c_div_def
          QOA_SLICE_LEN_def)
  then show "fst (qoa_decode_frame (ptr_add example_file 8) 32
      \<lparr>channels = 1, samplerate = 1, samples = 40,
       lms = \<lambda>c. \<lparr>history = \<lambda>i. 0, weights = \<lambda>i. 0\<rparr>\<rparr> sample_data) = 32"
    by (simp add: word_unat_eq_iff)
  show "snd (snd (snd (qoa_decode_frame (ptr_add example_file 8) 32
      \<lparr>channels = 1, samplerate = 1, samples = 40,
       lms = \<lambda>c. \<lparr>history = \<lambda>i. 0, weights = \<lambda>i. 0\<rparr>\<rparr> sample_data))) = 20"
    by (subst qoa_decode_frame_accepts [where h = "0x0100000100140020"])
       (simp_all add: example_file_40_frame_header example_file_40_frame_fields c_div_def
          QOA_SLICE_LEN_def Let_def)
qed

lemma example_file_40_rounds:
  "qoa_decode_rounds (Suc 0) example_file 40
     (\<lparr>channels = 1, samplerate = 1, samples = 40,
       lms = \<lambda>c. \<lparr>history = \<lambda>i. 0, weights = \<lambda>i. 0\<rparr>\<rparr>, \<lambda>i. 0, 8, 0) =
   Some (fst (snd (qoa_decode_frame (ptr_add example_file 8) 32
            \<lparr>channels = 1, samplerate = 1, samples = 40,
              lms = \<lambda>c. \<lparr>history = \<lambda>i. 0, weights = \<lambda>i. 0\<rparr>\<rparr> (\<lambda>i. 0))),
         ptr_merge (\<lambda>i. 0) 0 (fst (snd (snd (qoa_decode_frame (ptr_add example_file 8) 32
            \<lparr>channels = 1, samplerate = 1, samples = 40,
              lms = \<lambda>c. \<lparr>history = \<lambda>i. 0, weights = \<lambda>i. 0\<rparr>\<rparr> (\<lambda>i. 0))))),
         40, 20)"
proof -
  have z: "ptr_add (\<lambda>i. 0 :: int) 0 = (\<lambda>i. 0)" by (simp add: ptr_add_def)
  show ?thesis
    by (simp add: split_def z example_file_40_frame qoa_decode_frame_fields)
qed

lemma example_file_40_end:
  "channels q = 1 \<Longrightarrow> fst (qoa_decode_frame (ptr_add example_file 40) 0 q v) = 0"
  by (subst qoa_decode_frame_rejected) simp_all




text \<open>
  Claim C2 fails: for the 16 bytes of a file header with one sample and a frame header
  of one channel at 1 Hz, \<open>qoa_decode_frame\<close> returns 0 for the frame and \<open>qoa_decode\<close>
  returns a buffer, not the null pointer.
\<close>

theorem qoa_decode_malformed_frame_not_null:
  "fst (qoa_decode_frame
     (ptr_add (\<lambda>i. if i < 16 then [0x71, 0x6f, 0x61, 0x66, 0, 0, 0, 1, 1, 0, 0, 1, 0, 0, 0, 0] ! i
                else 0) 8) 8
     \<lparr>channels = 1, samplerate = 1, samples = 1,
      lms = \<lambda>c. \<lparr>history = \<lambda>i. 0, weights = \<lambda>i. 0\<rparr>\<rparr> (\<lambda>i. 0)) = 0 \<and>
   qoa_decode
     (\<lambda>i. if i < 16 then [0x71, 0x6f, 0x61, 0x66, 0, 0, 0, 1, 1, 0, 0, 1, 0, 0, 0, 0] ! i else 0) 16
     \<lparr>channels = 0, samplerate = 0, samples = 0,
      lms = \<lambda>c. \<lparr>history = \<lambda>i. 0, weights = \<lambda>i. 0\<rparr>\<rparr> (Some (\<lambda>i. 0)) =
   Some (Some (\<lambda>i. 0, 1),
      \<lparr>channels = 1, samplerate = 1, samples = 0,
       lms = \<lambda>c. \<lparr>history = \<lambda>i. 0, weights = \<lambda>i. 0\<rparr>\<rparr>)"
proof -
  have "qoa_decode_frame
     (ptr_add (\<lambda>i. if i < 16 then [0x71, 0x6f, 0x61, 0x66, 0, 0, 0, 1, 1, 0, 0, 1, 0, 0, 0, 0] ! i
                else 0) 8) 8
     \<lparr>channels = 1, samplerate = 1, samples = 1,
      lms = \<lambda>c. \<lparr>history = \<lambda>i. 0, weights = \<lambda>i. 0\<rparr>\<rparr> (\<lambda>i. 0) =
     (0, \<lparr>channels = 1, samplerate = 1, samples = 1,
      lms = \<lambda>c. \<lparr>history = \<lambda>i. 0, weights = \<lambda>i. 0\<rparr>\<rparr>, (\<lambda>i. 0), 0)"
    by (rule qoa_decode_frame_rejected) simp
  then show ?thesis
    by (simp add: qoa_decode_16 example_file_header QOA_MALLOC_def)
qed

text \<open>
  Claim C2, as amended: \<open>qoa_decode\<close> returns the null pointer when \<open>qoa_decode_header\<close>
  returns 0. A frame for which \<open>qoa_decode_frame\<close> returns 0 does not make the result
  null: it ends the loop, and \<open>qoa_decode\<close> returns the buffer that was allocated, not
  null if the allocation succeeded, with the samples decoded so far, and the descriptor
  with \<open>samples\<close> set to the number of samples decoded.
\<close>

theorem qoa_decode_null_when_header_malformed:
  "(fst (qoa_decode_header bytes sz qoa) = 0 \<longrightarrow>
      qoa_decode bytes sz qoa heap = Some (None, snd (qoa_decode_header bytes sz qoa))) \<and>
   (qoa_decode_header bytes sz qoa = (p, qoa1) \<and> p \<noteq> 0 \<and>
    QOA_MALLOC (word_of_int (sint (samples qoa1 * channels qoa1)) * 2) heap = Some buffer \<and>
    qoa_decode_rounds k bytes sz (qoa1, buffer, p, 0) = Some (qoa', buffer', p', n) \<and>
    fst (qoa_decode_frame (ptr_add bytes (unat p')) (word_of_int sz - p') qoa'
           (ptr_add buffer' (unat (n * channels qoa')))) = 0 \<longrightarrow>
      qoa_decode bytes sz qoa heap =
        Some (Some (buffer', sint (samples qoa1 * channels qoa1)), qoa'\<lparr>samples := n\<rparr>))"
  using qoa_decode_header_null [of bytes sz qoa heap]
    qoa_decode_stops [of bytes sz qoa p qoa1 heap buffer k qoa' buffer' p' n]
  by blast

theorem qoa_decode_null_when_header_malformed_witness:
  "qoa_decode example_file 15
     \<lparr>channels = 2, samplerate = 3, samples = 4,
      lms = \<lambda>c. \<lparr>history = \<lambda>i. 0, weights = \<lambda>i. 0\<rparr>\<rparr> (Some (\<lambda>i. 0)) =
     Some (None, \<lparr>channels = 2, samplerate = 3, samples = 4,
      lms = \<lambda>c. \<lparr>history = \<lambda>i. 0, weights = \<lambda>i. 0\<rparr>\<rparr>) \<and>
   (\<exists>buffer q. qoa_decode example_file 40
        \<lparr>channels = 0, samplerate = 0, samples = 0,
         lms = \<lambda>c. \<lparr>history = \<lambda>i. 0, weights = \<lambda>i. 0\<rparr>\<rparr> (Some (\<lambda>i. 0)) =
      Some (Some (buffer, 40), q) \<and> samples q = 20)"
proof -
  have h: "qoa_decode_header example_file 15
     \<lparr>channels = 2, samplerate = 3, samples = 4,
      lms = \<lambda>c. \<lparr>history = \<lambda>i. 0, weights = \<lambda>i. 0\<rparr>\<rparr> =
     (0, \<lparr>channels = 2, samplerate = 3, samples = 4,
      lms = \<lambda>c. \<lparr>history = \<lambda>i. 0, weights = \<lambda>i. 0\<rparr>\<rparr>)"
    by (simp add: qoa_decode_header_def QOA_MIN_FILESIZE_def)
  have e: "fst (qoa_decode_frame (ptr_add example_file 40) 0
       (fst (snd (qoa_decode_frame (ptr_add example_file 8) 32
            \<lparr>channels = 1, samplerate = 1, samples = 40,
              lms = \<lambda>c. \<lparr>history = \<lambda>i. 0, weights = \<lambda>i. 0\<rparr>\<rparr> (\<lambda>i. 0)))) v) = 0" for v
    by (simp add: example_file_40_end qoa_decode_frame_fields)
  show ?thesis
    using qoa_decode_null_when_header_malformed [of example_file 15
        "\<lparr>channels = 2, samplerate = 3, samples = 4,
          lms = \<lambda>c. \<lparr>history = \<lambda>i. 0, weights = \<lambda>i. 0\<rparr>\<rparr>" "Some (\<lambda>i. 0)"]
      qoa_decode_null_when_header_malformed [of example_file 40
        "\<lparr>channels = 0, samplerate = 0, samples = 0,
          lms = \<lambda>c. \<lparr>history = \<lambda>i. 0, weights = \<lambda>i. 0\<rparr>\<rparr>" "Some (\<lambda>i. 0)" 8
        "\<lparr>channels = 1, samplerate = 1, samples = 40,
          lms = \<lambda>c. \<lparr>history = \<lambda>i. 0, weights = \<lambda>i. 0\<rparr>\<rparr>" "\<lambda>i. 0" "Suc 0"
        "fst (snd (qoa_decode_frame (ptr_add example_file 8) 32
            \<lparr>channels = 1, samplerate = 1, samples = 40,
              lms = \<lambda>c. \<lparr>history = \<lambda>i. 0, weights = \<lambda>i. 0\<rparr>\<rparr> (\<lambda>i. 0)))"
        "ptr_merge (\<lambda>i. 0) 0 (fst (snd (snd (qoa_decode_frame (ptr_add example_file 8) 32
            \<lparr>channels = 1, samplerate = 1, samples = 40,
              lms = \<lambda>c. \<lparr>history = \<lambda>i. 0, weights = \<lambda>i. 0\<rparr>\<rparr> (\<lambda>i. 0)))))" 40 20]
    by (simp del: qoa_decode_rounds.simps add: h example_file_40_header QOA_MALLOC_def example_file_40_rounds e)
qed

text \<open>The body of the loop of lines 65 to 84, without its \<open>break\<close>.\<close>

definition residual_step ::
    "nat \<Rightarrow> (nat \<Rightarrow> 16 word) \<Rightarrow> int \<Rightarrow> qoa_lms_t \<times> u64 \<times> u64 \<Rightarrow> qoa_lms_t \<times> u64 \<times> u64" where
  "residual_step scalefactor sample_data si = (\<lambda>(l, slice_w, current_error).
     (let sample = sint (sample_data (nat si));
          predicted = qoa_lms_predict l;
          residual = sample - predicted;
          scaled = qoa_div residual scalefactor;
          clamped = qoa_clamp scaled (- 8) 8;
          quantized = qoa_quant_tab ! nat (clamped + 8);
          dequantized = qoa_dequant_tab ! scalefactor ! quantized;
          reconstructed = qoa_clamp (predicted + dequantized) (- 32768) 32767;
          err = sample - reconstructed
      in (qoa_lms_update l reconstructed dequantized,
          push_bit 3 slice_w OR word_of_nat quantized,
          current_error + word_of_int (err * err))))"

lemma qoa_encode_residuals_Cons:
  "qoa_encode_residuals sf b sd (si # sis) st =
     (if snd (snd (residual_step sf sd si st)) > b
      then (fst st, fst (snd st), snd (snd (residual_step sf sd si st)))
      else qoa_encode_residuals sf b sd sis (residual_step sf sd si st))"
  by (cases st) (simp add: residual_step_def Let_def)

lemma residual_step_error:
  "\<exists>e. 0 \<le> e \<and> e < 2 ^ 32 \<and>
       snd (snd (residual_step sf sd si st)) = snd (snd st) + word_of_int e"
proof -
  define sample where "sample = sint (sd (nat si))"
  define rec where "rec = qoa_clamp (qoa_lms_predict (fst st) + qoa_dequant_tab ! sf !
      (qoa_quant_tab ! nat (qoa_clamp (qoa_div (sample - qoa_lms_predict (fst st)) sf) (- 8) 8 + 8)))
      (- 32768) 32767"
  have s: "- 32768 \<le> sample \<and> sample \<le> 32767"
    using sint_ge [of "sd (nat si)"] sint_lt [of "sd (nat si)"] by (simp add: sample_def)
  have r: "- 32768 \<le> rec \<and> rec \<le> 32767" by (simp add: rec_def qoa_clamp_def)
  have "\<bar>sample - rec\<bar> \<le> 65535" using s r by linarith
  then have "\<bar>sample - rec\<bar> * \<bar>sample - rec\<bar> \<le> 65535 * 65535"
    by (intro mult_mono) simp_all
  then have "(sample - rec) * (sample - rec) < 2 ^ 32" by (simp add: abs_mult_self_eq flip: abs_mult)
  moreover have "0 \<le> (sample - rec) * (sample - rec)" by simp
  moreover have "snd (snd (residual_step sf sd si st)) =
      snd (snd st) + word_of_int ((sample - rec) * (sample - rec))"
    by (cases st) (simp add: residual_step_def Let_def sample_def rec_def)
  ultimately show ?thesis by blast
qed

lemma unat_add_u64:
  fixes ce :: u64
  assumes "0 \<le> e" and "unat ce + nat e < 2 ^ 64"
  shows "unat (ce + word_of_int e) = unat ce + nat e"
proof -
  have "word_of_int e = (of_nat (nat e) :: u64)" using assms(1) by simp
  then have "unat (ce + word_of_int e) = (unat ce + nat e mod 2 ^ 64) mod 2 ^ 64"
    by (simp add: unat_word_ariths unat_of_nat)
  also have "\<dots> = unat ce + nat e" using assms(2) by simp
  finally show ?thesis .
qed

lemma qoa_encode_residuals_bound:
  assumes "unat (snd (snd st)) + length sis * 2 ^ 32 < 2 ^ 64"
  shows "unat (snd (snd st)) \<le> unat (snd (snd (qoa_encode_residuals sf (- 1) sd sis st))) \<and>
         unat (snd (snd (qoa_encode_residuals sf (- 1) sd sis st))) \<le>
           unat (snd (snd st)) + length sis * 2 ^ 32 \<and>
         (snd (snd (qoa_encode_residuals sf (- 1) sd sis st)) \<le> b \<longrightarrow>
            qoa_encode_residuals sf b sd sis st = qoa_encode_residuals sf (- 1) sd sis st) \<and>
         (\<not> snd (snd (qoa_encode_residuals sf (- 1) sd sis st)) \<le> b \<longrightarrow>
            b < snd (snd (qoa_encode_residuals sf b sd sis st)))"
  using assms
proof (induction sis arbitrary: st)
  case Nil
  then show ?case by (cases st) auto
next
  case (Cons si sis)
  define st1 where "st1 = residual_step sf sd si st"
  obtain e where e: "0 \<le> e" "e < 2 ^ 32" "snd (snd st1) = snd (snd st) + word_of_int e"
    using residual_step_error [of sf sd si st] by (auto simp: st1_def)
  have ne: "nat e < 2 ^ 32" using e(1,2) by (simp add: nat_less_iff)
  have u: "unat (snd (snd st1)) = unat (snd (snd st)) + nat e"
    unfolding e(3) using Cons.prems ne by (intro unat_add_u64 e(1)) simp
  have pre: "unat (snd (snd st1)) + length sis * 2 ^ 32 < 2 ^ 64"
    using Cons.prems ne by (simp add: u)
  note IH = Cons.IH [OF pre]
  have full: "qoa_encode_residuals sf (- 1) sd (si # sis) st =
              qoa_encode_residuals sf (- 1) sd sis st1"
    by (simp add: qoa_encode_residuals_Cons st1_def [symmetric])
  have le1: "unat (snd (snd st1)) \<le> unat (snd (snd (qoa_encode_residuals sf (- 1) sd sis st1)))"
    using IH by simp
  show ?case
  proof (cases "snd (snd st1) > b")
    case True
    then have "\<not> snd (snd (qoa_encode_residuals sf (- 1) sd sis st1)) \<le> b"
      using le1 by (simp add: word_le_nat_alt word_less_nat_alt)
    moreover have "qoa_encode_residuals sf b sd (si # sis) st = (fst st, fst (snd st), snd (snd st1))"
      using True by (simp add: qoa_encode_residuals_Cons st1_def [symmetric])
    ultimately show ?thesis
      using IH True ne by (simp add: full u)
  next
    case False
    then have "qoa_encode_residuals sf b sd (si # sis) st = qoa_encode_residuals sf b sd sis st1"
      by (simp add: qoa_encode_residuals_Cons st1_def [symmetric])
    then show ?thesis
      using IH ne by (simp add: full u)
  qed
qed

lemma qoa_encode_search_Suc:
  "qoa_encode_search sd l sis [0..<Suc k] =
     (case qoa_encode_search sd l sis [0..<k] of (best_error, best_slice, best_lms) \<Rightarrow>
        case qoa_encode_residuals k best_error sd sis (l, word_of_nat k, 0) of
          (l', slice_w, current_error) \<Rightarrow>
            if current_error < best_error then (current_error, slice_w, l')
            else (best_error, best_slice, best_lms))"
  by (simp add: qoa_encode_search_def split_def Let_def)

lemma qoa_encode_search_invariant:
  assumes len: "length sis < 2 ^ 32"
  shows "(k = 0 \<and> qoa_encode_search sd l sis [0..<k] = (- 1, 0, l)) \<or>
         (\<exists>s<k. qoa_encode_search sd l sis [0..<k] =
             (snd (snd (qoa_encode_residuals s (- 1) sd sis (l, word_of_nat s, 0))),
              fst (snd (qoa_encode_residuals s (- 1) sd sis (l, word_of_nat s, 0))),
              fst (qoa_encode_residuals s (- 1) sd sis (l, word_of_nat s, 0))) \<and>
            (\<forall>t<k. snd (snd (qoa_encode_residuals s (- 1) sd sis (l, word_of_nat s, 0))) \<le>
                   snd (snd (qoa_encode_residuals t (- 1) sd sis (l, word_of_nat t, 0)))) \<and>
            (\<forall>t. t < s \<longrightarrow> snd (snd (qoa_encode_residuals s (- 1) sd sis (l, word_of_nat s, 0))) <
                   snd (snd (qoa_encode_residuals t (- 1) sd sis (l, word_of_nat t, 0)))))"
proof (induction k)
  case 0
  show ?case by (simp add: qoa_encode_search_def)
next
  case (Suc k)
  define cand where "cand = (\<lambda>s. qoa_encode_residuals s (- 1) sd sis (l, word_of_nat s, 0))"
  define E where "E = (\<lambda>s. snd (snd (cand s)))"
  have pre: "unat (snd (snd (l, word_of_nat s :: u64, 0 :: u64))) + length sis * 2 ^ 32 < 2 ^ 64" for s
  proof -
    have "length sis * 2 ^ 32 \<le> (2 ^ 32 - 1) * 2 ^ 32" using len by (intro mult_le_mono1) simp
    then show ?thesis by simp
  qed
  have Emax: "E s < - 1" for s
  proof -
    have "unat (E s) \<le> length sis * 2 ^ 32"
      using qoa_encode_residuals_bound [OF pre, where sf = s and sd = sd and b = "- 1"] by (simp add: E_def cand_def)
    also have "\<dots> \<le> (2 ^ 32 - 1) * 2 ^ 32" using len by (intro mult_le_mono1) simp
    also have "\<dots> < unat (- 1 :: u64)"
      by (simp add: unsigned_minus_1_eq_mask mask_eq_exp_minus_1)
    finally show ?thesis by (simp add: word_less_nat_alt)
  qed
  have run: "(E k \<le> b \<longrightarrow> qoa_encode_residuals k b sd sis (l, word_of_nat k, 0) = cand k) \<and>
             (\<not> E k \<le> b \<longrightarrow> b < snd (snd (qoa_encode_residuals k b sd sis (l, word_of_nat k, 0))))" for b
    using qoa_encode_residuals_bound [OF pre, where sf = k and sd = sd and b = b] by (simp add: E_def cand_def)
  from Suc.IH show ?case
  proof (elim disjE conjE exE)
    assume k0: "k = 0" and st: "qoa_encode_search sd l sis [0..<k] = (- 1, 0, l)"
    have "qoa_encode_residuals k (- 1) sd sis (l, word_of_nat k, 0) = cand k"
      by (simp add: cand_def)
    then have "qoa_encode_search sd l sis [0..<Suc k] = (E k, fst (snd (cand k)), fst (cand k))"
      using Emax [of k] by (subst qoa_encode_search_Suc) (simp add: st split_def E_def)
    then show ?thesis
      using k0 by (intro disjI2 exI [of _ 0]) (simp add: E_def cand_def)
  next
    fix s
    assume sk: "s < k"
      and st: "qoa_encode_search sd l sis [0..<k] =
             (snd (snd (qoa_encode_residuals s (- 1) sd sis (l, word_of_nat s, 0))),
              fst (snd (qoa_encode_residuals s (- 1) sd sis (l, word_of_nat s, 0))),
              fst (qoa_encode_residuals s (- 1) sd sis (l, word_of_nat s, 0)))"
      and mn: "\<forall>t<k. snd (snd (qoa_encode_residuals s (- 1) sd sis (l, word_of_nat s, 0))) \<le>
                   snd (snd (qoa_encode_residuals t (- 1) sd sis (l, word_of_nat t, 0)))"
      and lo: "\<forall>t. t < s \<longrightarrow> snd (snd (qoa_encode_residuals s (- 1) sd sis (l, word_of_nat s, 0))) <
                   snd (snd (qoa_encode_residuals t (- 1) sd sis (l, word_of_nat t, 0)))"
    have st': "qoa_encode_search sd l sis [0..<k] = (E s, fst (snd (cand s)), fst (cand s))"
      using st by (simp add: E_def cand_def)
    have mn': "\<forall>t<k. E s \<le> E t" using mn by (simp add: E_def cand_def)
    have lo': "\<forall>t. t < s \<longrightarrow> E s < E t" using lo by (simp add: E_def cand_def)
    show ?thesis
    proof (cases "E k < E s")
      case True
      then have "qoa_encode_residuals k (E s) sd sis (l, word_of_nat k, 0) = cand k"
        using run [of "E s"] by simp
      then have new: "qoa_encode_search sd l sis [0..<Suc k] = (E k, fst (snd (cand k)), fst (cand k))"
        using True by (subst qoa_encode_search_Suc) (simp add: st' split_def E_def)
      have "\<forall>t<Suc k. E k \<le> E t" using True mn' by (auto simp: less_Suc_eq)
      moreover have "\<forall>t<k. E k < E t" using True mn' by auto
      ultimately show ?thesis
        using new by (intro disjI2 exI [of _ k]) (simp add: E_def cand_def)
    next
      case False
      have "\<not> snd (snd (qoa_encode_residuals k (E s) sd sis (l, word_of_nat k, 0))) < E s"
      proof (cases "E k \<le> E s")
        case True
        then show ?thesis using run [of "E s"] False by (simp add: E_def)
      next
        case False
        then show ?thesis using run [of "E s"] by auto
      qed
      then have keep: "qoa_encode_search sd l sis [0..<Suc k] = (E s, fst (snd (cand s)), fst (cand s))"
        by (subst qoa_encode_search_Suc) (simp add: st' split_def)
      have "\<forall>t<Suc k. E s \<le> E t" using False mn' by (auto simp: less_Suc_eq)
      then show ?thesis
        using keep lo' sk by (intro disjI2 exI [of _ s]) (simp add: E_def cand_def)
    qed
  qed
qed

lemma for_range_length_int32:
  "length (for_range (sint (a :: u32)) (sint (b :: u32)) step) < 2 ^ 32"
proof (cases "sint a < sint b \<and> 0 < step")
  case False
  then show ?thesis by (auto simp add: for_range_length)
next
  case True
  define x where "x = sint b - sint a"
  have x1: "1 \<le> x" using True by (simp add: x_def)
  have "sint b < 2 ^ 31" "- (2 ^ 31) \<le> sint a"
    using sint_lt [of b] sint_ge [of a] by simp_all
  then have xb: "x < 2 ^ 32" by (simp add: x_def)
  have "0 \<le> (x - 1) * (step - 1)" using x1 True by simp
  then have "x + step - 1 \<le> x * step" by (simp add: algebra_simps)
  then have "(x + step - 1) div step \<le> x * step div step" by (intro zdiv_mono1) (use True in simp_all)
  then have "(x + step - 1) div step \<le> x" using True by simp
  then have "nat ((x + step - 1) div step) < 2 ^ 32" using xb by (simp add: nat_less_iff)
  then show ?thesis using True by (simp add: for_range_length x_def)
qed

text \<open>
  Claim C6: the pass of a scalefactor that is run with \<open>best_error\<close> at its maximum never
  breaks and gives the total squared error of that scalefactor. The search over the 16
  scalefactors of a slice records error, slice word and LMS state of exactly that pass
  for the lowest scalefactor whose total error is minimal (no error is lower, and every
  lower scalefactor has a strictly higher one); and after scalefactor 0 alone the record
  is the pass of scalefactor 0, so the first candidate is always accepted.
\<close>

theorem qoa_encode_search_lowest_scalefactor:
  assumes "sis = for_range (sint (slice_start :: u32)) (sint (slice_end :: u32)) (uint (chans :: u32))"
  shows "(\<exists>s<16.
           qoa_encode_search sample_data l sis [0..<16] =
             (snd (snd (qoa_encode_residuals s (- 1) sample_data sis (l, word_of_nat s, 0))),
              fst (snd (qoa_encode_residuals s (- 1) sample_data sis (l, word_of_nat s, 0))),
              fst (qoa_encode_residuals s (- 1) sample_data sis (l, word_of_nat s, 0))) \<and>
           (\<forall>t<16. snd (snd (qoa_encode_residuals s (- 1) sample_data sis (l, word_of_nat s, 0))) \<le>
                   snd (snd (qoa_encode_residuals t (- 1) sample_data sis (l, word_of_nat t, 0)))) \<and>
           (\<forall>t. t < s \<longrightarrow>
                   snd (snd (qoa_encode_residuals s (- 1) sample_data sis (l, word_of_nat s, 0))) <
                   snd (snd (qoa_encode_residuals t (- 1) sample_data sis (l, word_of_nat t, 0))))) \<and>
         qoa_encode_search sample_data l sis [0..<1] =
           (snd (snd (qoa_encode_residuals 0 (- 1) sample_data sis (l, 0, 0))),
            fst (snd (qoa_encode_residuals 0 (- 1) sample_data sis (l, 0, 0))),
            fst (qoa_encode_residuals 0 (- 1) sample_data sis (l, 0, 0)))"
proof -
  have len: "length sis < 2 ^ 32" unfolding assms by (rule for_range_length_int32)
  show ?thesis
    using qoa_encode_search_invariant [OF len, of 16 sample_data l]
      qoa_encode_search_invariant [OF len, of 1 sample_data l]
    by simp
qed

theorem qoa_encode_search_lowest_scalefactor_witness:
  "qoa_encode_search (\<lambda>i. 0) \<lparr>history = \<lambda>i. 0, weights = \<lambda>i. 0\<rparr>
     (for_range (sint (0 :: u32)) (sint (1 :: u32)) (uint (1 :: u32))) [0..<1] =
   (snd (snd (qoa_encode_residuals 0 (- 1) (\<lambda>i. 0) (for_range (sint (0 :: u32)) (sint (1 :: u32)) (uint (1 :: u32)))
      (\<lparr>history = \<lambda>i. 0, weights = \<lambda>i. 0\<rparr>, 0, 0))),
    fst (snd (qoa_encode_residuals 0 (- 1) (\<lambda>i. 0) (for_range (sint (0 :: u32)) (sint (1 :: u32)) (uint (1 :: u32)))
      (\<lparr>history = \<lambda>i. 0, weights = \<lambda>i. 0\<rparr>, 0, 0))),
    fst (qoa_encode_residuals 0 (- 1) (\<lambda>i. 0) (for_range (sint (0 :: u32)) (sint (1 :: u32)) (uint (1 :: u32)))
      (\<lparr>history = \<lambda>i. 0, weights = \<lambda>i. 0\<rparr>, 0, 0)))"
  by (rule qoa_encode_search_lowest_scalefactor [OF refl, THEN conjunct2])

lemma ff_mask: "(0xff :: 'a :: len word) = mask 8"
  by (simp add: mask_eq_exp_minus_1)

lemma byte_roundtrip:
  "(ucast (ucast (drop_bit k v AND 0xff :: u64) :: u8) :: u64) = take_bit 8 (drop_bit k v)"
  by (rule bit_word_eqI) (auto simp: bit_simps ff_mask)

lemma be_bytes:
  "push_bit 56 (take_bit 8 (drop_bit 56 v)) OR push_bit 48 (take_bit 8 (drop_bit 48 v)) OR
   push_bit 40 (take_bit 8 (drop_bit 40 v)) OR push_bit 32 (take_bit 8 (drop_bit 32 v)) OR
   push_bit 24 (take_bit 8 (drop_bit 24 v)) OR push_bit 16 (take_bit 8 (drop_bit 16 v)) OR
   push_bit 8 (take_bit 8 (drop_bit 8 v)) OR push_bit 0 (take_bit 8 (drop_bit 0 v)) = v"
  for v :: u64
proof (rule bit_word_eqI)
  fix n assume "n < LENGTH(64)"
  then have n: "n < 64" by simp
  then consider "n < 8" | "8 \<le> n \<and> n < 16" | "16 \<le> n \<and> n < 24" | "24 \<le> n \<and> n < 32"
    | "32 \<le> n \<and> n < 40" | "40 \<le> n \<and> n < 48" | "48 \<le> n \<and> n < 56" | "56 \<le> n \<and> n < 64"
    by linarith
  then show "bit (push_bit 56 (take_bit 8 (drop_bit 56 v)) OR push_bit 48 (take_bit 8 (drop_bit 48 v)) OR
   push_bit 40 (take_bit 8 (drop_bit 40 v)) OR push_bit 32 (take_bit 8 (drop_bit 32 v)) OR
   push_bit 24 (take_bit 8 (drop_bit 24 v)) OR push_bit 16 (take_bit 8 (drop_bit 16 v)) OR
   push_bit 8 (take_bit 8 (drop_bit 8 v)) OR push_bit 0 (take_bit 8 (drop_bit 0 v))) n = bit v n"
    by cases (auto simp add: bit_simps)
qed

lemma qoa_read_write_u64: "fst (qoa_read_u64 (fst (qoa_write_u64 v bytes p)) p) = v"
  by (simp add: qoa_read_u64_def qoa_write_u64_def Let_def ptr_add_def byte_roundtrip
      byte_roundtrip [of 0, simplified] be_bytes [simplified])

lemma masks: "(0xffffff :: 'a :: len word) = mask 24" "(0xffff :: 'a :: len word) = mask 16"
  "(0xffffffff :: 'a :: len word) = mask 32"
  by (simp_all add: mask_eq_exp_minus_1)

lemma frame_header_fields:
  fixes a b c d :: u64
  defines "H \<equiv> push_bit 56 (take_bit 8 a) OR push_bit 32 (take_bit 24 b) OR
                 push_bit 16 (take_bit 16 c) OR take_bit 16 d"
  shows "drop_bit 56 H AND 0xff = take_bit 8 a"
    and "drop_bit 32 H AND 0xffffff = take_bit 24 b"
    and "drop_bit 16 H AND 0xffff = take_bit 16 c"
    and "H AND 0xffff = take_bit 16 d"
  unfolding H_def ff_mask masks
  by (rule bit_word_eqI; auto simp add: bit_simps)+

lemma uint_ucast_u32: "uint (ucast (x :: u32) :: u64) = uint x"
proof -
  have "uint x < 2 ^ 32" using uint_bounded [of x] by simp
  then have "uint x < 2 ^ 64" by simp
  then show ?thesis by (simp add: unsigned_ucast_eq take_bit_int_eq_self)
qed

lemma ucast_take_bit_u32:
  fixes x :: u32
  assumes "uint x < 2 ^ n"
  shows "uint (take_bit n (ucast x :: u64)) = uint x"
    and "take_bit n (ucast x :: u64) = ucast x"
proof -
  show u: "uint (take_bit n (ucast x :: u64)) = uint x"
    using assms by (simp add: unsigned_take_bit_eq uint_ucast_u32 take_bit_int_eq_self)
  show "take_bit n (ucast x :: u64) = ucast x"
    by (rule word_uint_eqI) (simp add: u uint_ucast_u32)
qed

lemma qoa_write_u64_snd: "snd (qoa_write_u64 v bytes p) = p + 8"
  by (simp add: qoa_write_u64_def Let_def)

lemma qoa_write_u64_below: "i < unat p \<Longrightarrow> fst (qoa_write_u64 v bytes p) i = bytes i"
  by (simp add: qoa_write_u64_def Let_def)

lemma fold_appends:
  fixes gp :: "'s \<Rightarrow> u32" and gb :: "'s \<Rightarrow> nat \<Rightarrow> u8"
  assumes p: "\<And>x s. gp (f x s) = gp s + of_nat k"
    and b: "\<And>x s i. unat (gp s) + k < 2 ^ 32 \<Longrightarrow> i < unat (gp s) \<Longrightarrow> gb (f x s) i = gb s i"
    and n: "unat (gp s) + length xs * k < 2 ^ 32"
  shows "unat (gp (fold f xs s)) = unat (gp s) + length xs * k \<and>
         (\<forall>i < unat (gp s). gb (fold f xs s) i = gb s i)"
  using n
proof (induction xs arbitrary: s)
  case Nil
  then show ?case by simp
next
  case (Cons x xs)
  have k: "unat (gp s) + k < 2 ^ 32" using Cons.prems by simp
  have "gp (f x s) = of_nat (unat (gp s) + k)" by (simp add: p)
  then have u: "unat (gp (f x s)) = unat (gp s) + k"
    using k by (simp only: unat_of_nat_u32)
  have "unat (gp (f x s)) + length xs * k < 2 ^ 32" using Cons.prems by (simp add: u)
  from Cons.IH [OF this] show ?case
    using b [OF k] by (simp add: u)
qed

lemma qoa_encode_lms_state_appends:
  assumes "unat p + unat (channels qoa) * 16 < 2 ^ 32"
  shows "unat (snd (qoa_encode_lms_state qoa (bytes, p))) = unat p + unat (channels qoa) * 16 \<and>
         (\<forall>i < unat p. fst (qoa_encode_lms_state qoa (bytes, p)) i = bytes i)"
proof -
  have "unat (snd (qoa_encode_lms_state qoa (bytes, p))) =
          unat (snd (bytes, p)) + length [0..<unat (channels qoa)] * 16 \<and>
        (\<forall>i < unat (snd (bytes, p)). fst (qoa_encode_lms_state qoa (bytes, p)) i = fst (bytes, p) i)"
    unfolding qoa_encode_lms_state_def
  proof (rule fold_appends)
    fix x and s :: "(nat \<Rightarrow> u8) \<times> u32"
    show "snd ((\<lambda>c (bytes, p).
        let (history_w, weights_w) = qoa_encode_lms_words (lms qoa c);
            (bytes, p) = qoa_write_u64 history_w bytes p
        in qoa_write_u64 weights_w bytes p) x s) = snd s + of_nat 16"
      by (simp add: split_def Let_def qoa_write_u64_snd)
    fix i
    assume "unat (snd s) + 16 < 2 ^ 32" and i: "i < unat (snd s)"
    then have "unat (snd s + 8) = unat (snd s) + 8" by (simp add: unat_word_ariths)
    with i show "fst ((\<lambda>c (bytes, p).
        let (history_w, weights_w) = qoa_encode_lms_words (lms qoa c);
            (bytes, p) = qoa_write_u64 history_w bytes p
        in qoa_write_u64 weights_w bytes p) x s) i = fst s i"
      by (simp add: split_def Let_def qoa_write_u64_snd qoa_write_u64_below)
  next
    show "unat (snd (bytes, p)) + length [0..<unat (channels qoa)] * 16 < 2 ^ 32"
      using assms by simp
  qed
  then show ?thesis by simp
qed

lemma qoa_encode_slice_p:
  "snd (snd (qoa_encode_slice sd fl si c st)) = snd (snd st) + 8"
  by (simp add: qoa_encode_slice_def split_def Let_def qoa_write_u64_snd)

lemma qoa_encode_slice_below:
  "i < unat (snd (snd st)) \<Longrightarrow> fst (snd (qoa_encode_slice sd fl si c st)) i = fst (snd st) i"
  by (simp add: qoa_encode_slice_def split_def Let_def qoa_write_u64_below)

lemma qoa_encode_slices_appends:
  assumes "unat (snd (snd st)) + length (for_range 0 (uint fl) QOA_SLICE_LEN) * (unat chans * 8) < 2 ^ 32"
  shows "unat (snd (snd (qoa_encode_slices sd fl chans st))) =
           unat (snd (snd st)) + length (for_range 0 (uint fl) QOA_SLICE_LEN) * (unat chans * 8) \<and>
         (\<forall>i < unat (snd (snd st)). fst (snd (qoa_encode_slices sd fl chans st)) i = fst (snd st) i)"
  unfolding qoa_encode_slices_def
proof (rule fold_appends [where gp = "\<lambda>s. snd (snd s)" and gb = "\<lambda>s. fst (snd s)"])
  show "unat (snd (snd st)) + length (for_range 0 (uint fl) QOA_SLICE_LEN) * (unat chans * 8) < 2 ^ 32"
    by (rule assms)
next
  fix x and s :: "qoa_desc \<times> (nat \<Rightarrow> u8) \<times> u32"
  have "snd (snd (fold (qoa_encode_slice sd fl x) cs s)) = snd (snd s) + of_nat (length cs * 8)" for cs
    by (induction cs arbitrary: s) (simp_all add: qoa_encode_slice_p)
  then show "snd (snd (fold (qoa_encode_slice sd fl x) [0..<unat chans] s)) =
        snd (snd s) + of_nat (unat chans * 8)" by simp
  fix i
  assume a: "unat (snd (snd s)) + unat chans * 8 < 2 ^ 32" and i: "i < unat (snd (snd s))"
  have "unat (snd (snd (fold (qoa_encode_slice sd fl x) [0..<unat chans] s))) =
          unat (snd (snd s)) + length [0..<unat chans] * 8 \<and>
        (\<forall>i < unat (snd (snd s)). fst (snd (fold (qoa_encode_slice sd fl x) [0..<unat chans] s)) i =
           fst (snd s) i)"
  proof (rule fold_appends [where gp = "\<lambda>s. snd (snd s)" and gb = "\<lambda>s. fst (snd s)"])
    show "unat (snd (snd s)) + length [0..<unat chans] * 8 < 2 ^ 32" using a by simp
  qed (simp_all add: qoa_encode_slice_p qoa_encode_slice_below)
  with i show "fst (snd (fold (qoa_encode_slice sd fl x) [0..<unat chans] s)) i = fst (snd s) i"
    by simp
qed

definition frame_bytes :: "nat \<Rightarrow> nat \<Rightarrow> nat" where
  "frame_bytes ch fl = 8 + 16 * ch + 8 * ((fl + 19) div 20) * ch"

lemma qoa_read_u64_cong:
  assumes "\<And>i. i < 8 \<Longrightarrow> b (unat p + i) = b' (unat p + i)"
  shows "fst (qoa_read_u64 b p) = fst (qoa_read_u64 b' p)"
  using assms [of 0] assms [of 1] assms [of 2] assms [of 3] assms [of 4] assms [of 5]
    assms [of 6] assms [of 7]
  by (simp add: qoa_read_u64_def Let_def ptr_add_def)

lemma slices_word:
  fixes frame_len :: u32
  assumes "unat frame_len \<le> 5120"
  shows "unat ((frame_len + word_of_int QOA_SLICE_LEN - 1) div word_of_int QOA_SLICE_LEN) =
           (unat frame_len + 19) div 20"
proof -
  have u: "unat (19 + frame_len) = unat frame_len + 19"
    using assms by (simp add: unat_word_ariths)
  have "unat ((19 + frame_len) div 20) = unat (19 + frame_len) div unat (20 :: u32)"
    by (rule unat_div)
  then have "unat ((19 + frame_len) div 20) = (unat frame_len + 19) div 20"
    by (simp add: u)
  then show ?thesis by (simp add: QOA_SLICE_LEN_def)
qed

lemma for_range_slices_length_int:
  "0 \<le> n \<Longrightarrow> length (for_range 0 n 20) = (nat n + 19) div 20"
proof (cases "0 < n")
  case True
  assume "0 \<le> n"
  have "length (for_range 0 n 20) = nat ((n + 19) div 20)"
    using True by (simp add: for_range_length)
  also have "\<dots> = (nat n + 19) div 20"
    using True by (simp add: nat_div_distrib nat_add_distrib)
  finally show ?thesis .
next
  case False
  assume "0 \<le> n"
  with False have "n = 0" by simp
  then show ?thesis by (simp add: for_range_length)
qed

lemma for_range_slices_length:
  fixes frame_len :: u32
  shows "length (for_range 0 (uint frame_len) QOA_SLICE_LEN) = (unat frame_len + 19) div 20"
  unfolding QOA_SLICE_LEN_def unat_eq_nat_uint
  by (rule for_range_slices_length_int) (rule uint_ge_0)

lemma frame_bytes_bound:
  assumes "ch \<le> 8" "fl \<le> 5120"
  shows "frame_bytes ch fl \<le> 16520"
proof -
  have "(fl + 19) div 20 \<le> (5120 + 19) div 20" using assms(2) by (intro div_le_mono) simp
  then have "(fl + 19) div 20 \<le> 256" by simp
  then have "(fl + 19) div 20 * ch \<le> 256 * 8" using assms(1) by (intro mult_le_mono)
  then show ?thesis using assms(1) by (simp add: frame_bytes_def)
qed

lemma QOA_FRAME_SIZE_unat:
  fixes frame_len :: u32
  assumes "unat chans \<le> 8" "unat frame_len \<le> 5120"
  shows "unat (QOA_FRAME_SIZE chans
           ((frame_len + word_of_int QOA_SLICE_LEN - 1) div word_of_int QOA_SLICE_LEN)) =
         frame_bytes (unat chans) (unat frame_len)"
proof -
  define sl where "sl = (frame_len + word_of_int QOA_SLICE_LEN - 1) div word_of_int QOA_SLICE_LEN"
  have s: "unat sl = (unat frame_len + 19) div 20" unfolding sl_def by (rule slices_word [OF assms(2)])
  have "QOA_FRAME_SIZE chans sl = of_nat (8 + 16 * unat chans + 8 * unat sl * unat chans)"
    by (simp add: QOA_FRAME_SIZE_def)
  also have "\<dots> = of_nat (frame_bytes (unat chans) (unat frame_len))"
    by (simp add: frame_bytes_def s)
  finally have "QOA_FRAME_SIZE chans sl = of_nat (frame_bytes (unat chans) (unat frame_len))" .
  moreover have "frame_bytes (unat chans) (unat frame_len) < 2 ^ 32"
    using frame_bytes_bound [OF assms] by simp
  ultimately show ?thesis by (simp add: sl_def [symmetric] unat_of_nat_u32)
qed

lemma qoa_write_u64_pair: "(fst (qoa_write_u64 v bytes 0), 8) = qoa_write_u64 v bytes 0"
  by (simp add: qoa_write_u64_def Let_def)

lemma qoa_encode_frame_result:
  assumes ch: "unat (channels qoa) \<le> 8" and fl: "unat frame_len \<le> 5120"
  shows "unat (fst (qoa_encode_frame sd qoa frame_len bytes)) =
           frame_bytes (unat (channels qoa)) (unat frame_len)"
    and "fst (qoa_read_u64 (snd (snd (qoa_encode_frame sd qoa frame_len bytes))) 0) =
           push_bit 56 (ucast (channels qoa)) OR push_bit 32 (ucast (samplerate qoa)) OR
           push_bit 16 (ucast frame_len) OR
           ucast (fst (qoa_encode_frame sd qoa frame_len bytes))"
proof -
  define fs where "fs = QOA_FRAME_SIZE (channels qoa)
     ((frame_len + word_of_int QOA_SLICE_LEN - 1) div word_of_int QOA_SLICE_LEN)"
  define H where "H = push_bit 56 (ucast (channels qoa)) OR push_bit 32 (ucast (samplerate qoa)) OR
           push_bit 16 (ucast frame_len) OR (ucast fs :: u64)"
  define b1 where "b1 = fst (qoa_write_u64 H bytes 0)"
  define st2 where "st2 = qoa_encode_lms_state qoa (b1, 8)"
  define st3 where "st3 = qoa_encode_slices sd frame_len (channels qoa) (qoa, fst st2, snd st2)"
  have R: "qoa_encode_frame sd qoa frame_len bytes = (snd (snd st3), fst st3, fst (snd st3))"
    by (simp add: qoa_encode_frame_def Let_def split_def st3_def st2_def b1_def H_def fs_def
        qoa_write_u64_pair)
  have fsu: "unat fs = frame_bytes (unat (channels qoa)) (unat frame_len)"
    unfolding fs_def by (rule QOA_FRAME_SIZE_unat [OF ch fl])
  have fb: "frame_bytes (unat (channels qoa)) (unat frame_len) \<le> 16520"
    by (rule frame_bytes_bound [OF ch fl])
  have l2: "unat (snd st2) = 8 + unat (channels qoa) * 16 \<and> (\<forall>i < 8. fst st2 i = b1 i)"
    using qoa_encode_lms_state_appends [of 8 qoa b1] ch by (simp add: st2_def)
  have len: "length (for_range 0 (uint frame_len) QOA_SLICE_LEN) = (unat frame_len + 19) div 20"
    by (rule for_range_slices_length)
  have tot: "unat (snd st2) + length (for_range 0 (uint frame_len) QOA_SLICE_LEN) *
               (unat (channels qoa) * 8) = frame_bytes (unat (channels qoa)) (unat frame_len)"
    using l2 by (simp add: len frame_bytes_def)
  have l3: "unat (snd (snd st3)) = frame_bytes (unat (channels qoa)) (unat frame_len) \<and>
            (\<forall>i < unat (snd st2). fst (snd st3) i = fst st2 i)"
    using qoa_encode_slices_appends [of "(qoa, fst st2, snd st2)" frame_len "channels qoa" sd]
      fb tot by (simp add: st3_def)
  show "unat (fst (qoa_encode_frame sd qoa frame_len bytes)) =
           frame_bytes (unat (channels qoa)) (unat frame_len)"
    using l3 by (simp add: R)
  have pf: "snd (snd st3) = fs"
    using l3 fsu by (simp add: word_unat_eq_iff)
  have "fst (qoa_read_u64 (fst (snd st3)) 0) = fst (qoa_read_u64 b1 0)"
  proof (rule qoa_read_u64_cong)
    fix i :: nat assume "i < 8"
    then show "fst (snd st3) (unat (0 :: u32) + i) = b1 (unat (0 :: u32) + i)"
      using l2 l3 by simp
  qed
  also have "\<dots> = H" unfolding b1_def by (rule qoa_read_write_u64)
  finally show "fst (qoa_read_u64 (snd (snd (qoa_encode_frame sd qoa frame_len bytes))) 0) =
           push_bit 56 (ucast (channels qoa)) OR push_bit 32 (ucast (samplerate qoa)) OR
           push_bit 16 (ucast frame_len) OR
           ucast (fst (qoa_encode_frame sd qoa frame_len bytes))"
    by (simp add: R pf H_def)
qed

definition frames_bytes :: "nat \<Rightarrow> nat \<Rightarrow> nat" where
  "frames_bytes ch r = ((r + 5119) div 5120) * (8 + 16 * ch) + ((r + 19) div 20) * (8 * ch)"

lemma frames_bytes_0: "frames_bytes ch 0 = 0"
  by (simp add: frames_bytes_def)

lemma frames_bytes_step:
  assumes "0 < r"
  shows "frames_bytes ch r = frame_bytes ch (min 5120 r) + frames_bytes ch (r - min 5120 r)"
proof (cases "r \<le> 5120")
  case True
  then have "(r + 5119) div 5120 = 1" using assms by simp
  then show ?thesis using True by (simp add: frames_bytes_def frame_bytes_def min_def algebra_simps)
next
  case False
  define q where "q = r - 5120"
  have r: "r = q + 5120" using False by (simp add: q_def)
  have "(q + 5120 + 5119) div 5120 = Suc ((q + 5119) div 5120)" by simp
  moreover have "(q + 5120 + 19) div 20 = 256 + (q + 19) div 20" by simp
  ultimately show ?thesis
    unfolding r by (simp add: frames_bytes_def frame_bytes_def min_def algebra_simps)
qed

lemma frame_len_value:
  fixes s :: u32
  assumes "unat s < 2 ^ 31" and "k + r = unat s" and "0 < r"
  shows "(of_nat k :: u32) < s"
    and "qoa_clamp QOA_FRAME_LEN 0 (sint (s - of_nat k)) = int (min 5120 r)"
proof -
  have n31: "unat s < 2147483648" using assms(1) by simp
  have k: "k < 2147483648" using n31 assms(2) by linarith
  have u: "unat (of_nat k :: u32) = k"
    using k by (intro unat_of_nat_u32) simp
  show "(of_nat k :: u32) < s" using assms(2,3) by (simp add: word_less_nat_alt u)
  have le: "(of_nat k :: u32) \<le> s" using assms(2) by (simp add: word_le_nat_alt u)
  have "unat (s - of_nat k) = unat s - unat (of_nat k :: u32)" using le by (rule unat_sub)
  then have d: "unat (s - of_nat k) = r" using assms(2) by (simp add: u)
  have "uint (s - of_nat k) = int (unat (s - of_nat k))" by simp
  then have ui: "uint (s - of_nat k) = int r" by (simp only: d)
  have "int r < 2147483648" using n31 assms(2) by linarith
  then have "signed_take_bit 31 (int r) = int r"
    by (intro signed_take_bit_int_eq_self) simp_all
  then have "sint (s - of_nat k) = int r"
    by (simp add: sint_uint ui)
  then show "qoa_clamp QOA_FRAME_LEN 0 (sint (s - of_nat k)) = int (min 5120 r)"
    using assms(3)
    by (simp add: qoa_clamp_def QOA_FRAME_LEN_def QOA_SLICES_PER_FRAME_def QOA_SLICE_LEN_def min_def)
qed

lemma qoa_encode_frames_stop:
  "k = unat (samples qoa) \<Longrightarrow> qoa_encode_frames sd (int k) (qoa, bytes, p) = (qoa, bytes, p)"
  by (subst qoa_encode_frames.simps) simp

lemma qoa_encode_frames_step:
  assumes "unat (samples qoa) < 2 ^ 31" and "k + r = unat (samples qoa)" and "0 < r"
  shows "qoa_encode_frames sd (int k) (qoa, bytes, p) =
     (let R = qoa_encode_frame (ptr_add sd (unat (of_nat k * channels qoa))) qoa
                (of_nat (min 5120 r)) (ptr_add bytes (unat p))
      in qoa_encode_frames sd (int (k + min 5120 r))
           (fst (snd R), ptr_merge bytes (unat p) (snd (snd R)), p + fst R))"
  by (subst qoa_encode_frames.simps)
     (simp add: frame_len_value [OF assms] Let_def split_def)

lemma qoa_encode_frames_result:
  assumes "unat (channels qoa) \<le> 8" and "unat (samples qoa) < 2 ^ 31"
    and "k + r = unat (samples qoa)"
    and "unat p + frames_bytes (unat (channels qoa)) r < 2 ^ 32"
  shows "unat (snd (snd (qoa_encode_frames sd (int k) (qoa, bytes, p)))) =
           unat p + frames_bytes (unat (channels qoa)) r \<and>
         channels (fst (qoa_encode_frames sd (int k) (qoa, bytes, p))) = channels qoa \<and>
         samplerate (fst (qoa_encode_frames sd (int k) (qoa, bytes, p))) = samplerate qoa \<and>
         samples (fst (qoa_encode_frames sd (int k) (qoa, bytes, p))) = samples qoa \<and>
         (\<forall>i < unat p. fst (snd (qoa_encode_frames sd (int k) (qoa, bytes, p))) i = bytes i)"
  using assms
proof (induction r arbitrary: k qoa bytes p rule: less_induct)
  case (less r)
  show ?case
  proof (cases "r = 0")
    case True
    with less.prems(3) have "k = unat (samples qoa)" by simp
    then have "qoa_encode_frames sd (int k) (qoa, bytes, p) = (qoa, bytes, p)"
      by (rule qoa_encode_frames_stop)
    with True show ?thesis by (simp add: frames_bytes_0)
  next
    case False
    then have r0: "0 < r" by simp
    define fl where "fl = min 5120 r"
    define R where "R = qoa_encode_frame (ptr_add sd (unat (of_nat k * channels qoa))) qoa
                (of_nat fl :: u32) (ptr_add bytes (unat p))"
    define qoa' where "qoa' = fst (snd R)"
    define bytes' where "bytes' = ptr_merge bytes (unat p) (snd (snd R))"
    have step: "qoa_encode_frames sd (int k) (qoa, bytes, p) =
        qoa_encode_frames sd (int (k + fl)) (qoa', bytes', p + fst R)"
      using qoa_encode_frames_step [OF less.prems(2,3) r0, of sd bytes p]
      by (simp add: Let_def R_def qoa'_def bytes'_def fl_def)
    have flu: "unat (of_nat fl :: u32) = fl" by (intro unat_of_nat_u32) (simp add: fl_def)
    have fl5: "fl \<le> 5120" by (simp add: fl_def)
    have fR: "unat (fst R) = frame_bytes (unat (channels qoa)) fl"
      using qoa_encode_frame_result(1) [OF less.prems(1), of "of_nat fl"] fl5
      by (simp add: R_def flu)
    have fields: "channels qoa' = channels qoa" "samplerate qoa' = samplerate qoa"
      "samples qoa' = samples qoa"
      using qoa_encode_frame_fields by (simp_all add: qoa'_def R_def)
    have split: "frames_bytes (unat (channels qoa)) r =
        frame_bytes (unat (channels qoa)) fl + frames_bytes (unat (channels qoa)) (r - fl)"
      unfolding fl_def by (rule frames_bytes_step [OF r0])
    have pu: "unat (p + fst R) = unat p + frame_bytes (unat (channels qoa)) fl"
      using less.prems(4) split by (simp add: unat_word_ariths fR)
    have rl: "r - fl < r" using r0 by (simp add: fl_def)
    have IH: "unat (snd (snd (qoa_encode_frames sd (int (k + fl)) (qoa', bytes', p + fst R)))) =
           unat (p + fst R) + frames_bytes (unat (channels qoa')) (r - fl) \<and>
         channels (fst (qoa_encode_frames sd (int (k + fl)) (qoa', bytes', p + fst R))) = channels qoa' \<and>
         samplerate (fst (qoa_encode_frames sd (int (k + fl)) (qoa', bytes', p + fst R))) = samplerate qoa' \<and>
         samples (fst (qoa_encode_frames sd (int (k + fl)) (qoa', bytes', p + fst R))) = samples qoa' \<and>
         (\<forall>i < unat (p + fst R). fst (snd (qoa_encode_frames sd (int (k + fl)) (qoa', bytes', p + fst R))) i = bytes' i)"
    proof (rule less.IH [OF rl])
      show "unat (channels qoa') \<le> 8" using less.prems(1) by (simp add: fields)
      show "unat (samples qoa') < 2 ^ 31" using less.prems(2) by (simp add: fields)
      show "k + fl + (r - fl) = unat (samples qoa')"
        using less.prems(3) by (simp add: fields fl_def)
      show "unat (p + fst R) + frames_bytes (unat (channels qoa')) (r - fl) < 2 ^ 32"
        using less.prems(4) split by (simp add: pu fields)
    qed
    have below: "i < unat p \<Longrightarrow> bytes' i = bytes i" for i
      by (simp add: bytes'_def ptr_merge_def)
    show ?thesis
      using IH split below by (simp add: step pu fields)
  qed
qed


lemma qoa_encode_frames_fields:
  "channels (fst (qoa_encode_frames sd si (qoa, bytes, p))) = channels qoa \<and>
   samplerate (fst (qoa_encode_frames sd si (qoa, bytes, p))) = samplerate qoa \<and>
   samples (fst (qoa_encode_frames sd si (qoa, bytes, p))) = samples qoa"
proof (induction sd si "(qoa, bytes, p)" arbitrary: qoa bytes p rule: qoa_encode_frames.induct)
  case (1 sample_data sample_index qoa bytes p)
  show ?case
  proof (cases "word_of_int sample_index < samples qoa")
    case False
    then show ?thesis by (subst (1 2 3) qoa_encode_frames.simps) simp
  next
    case True
    define fl where "fl = qoa_clamp QOA_FRAME_LEN 0 (sint (samples qoa - word_of_int sample_index))"
    define R where "R = qoa_encode_frame
        (ptr_add sample_data (unat (word_of_int sample_index * channels qoa))) qoa
        (word_of_int fl) (ptr_add bytes (unat p))"
    have f: "channels (fst (snd R)) = channels qoa" "samplerate (fst (snd R)) = samplerate qoa"
      "samples (fst (snd R)) = samples qoa"
      using qoa_encode_frame_fields by (simp_all add: R_def)
    have step: "qoa_encode_frames sample_data sample_index (qoa, bytes, p) =
        qoa_encode_frames sample_data (sample_index + fl)
          (fst (snd R), ptr_merge bytes (unat p) (snd (snd R)), p + fst R)"
      using True by (subst qoa_encode_frames.simps) (simp add: Let_def split_def R_def fl_def)
    have "channels (fst (qoa_encode_frames sample_data (sample_index + fl)
          (fst (snd R), ptr_merge bytes (unat p) (snd (snd R)), p + fst R))) = channels (fst (snd R)) \<and>
       samplerate (fst (qoa_encode_frames sample_data (sample_index + fl)
          (fst (snd R), ptr_merge bytes (unat p) (snd (snd R)), p + fst R))) = samplerate (fst (snd R)) \<and>
       samples (fst (qoa_encode_frames sample_data (sample_index + fl)
          (fst (snd R), ptr_merge bytes (unat p) (snd (snd R)), p + fst R))) = samples (fst (snd R))"
      by (rule 1 [OF True fl_def refl, of "fst R" "snd R" "fst (snd R)" "snd (snd R)"])
         (simp_all add: R_def fl_def)
    then show ?thesis by (simp add: step f)
  qed
qed









end
